theory Spec2Isabelle
  imports Complex_Main "HOL-Library.Word"
begin

section \<open>Values and failures\<close>

text \<open>
  Modelled from the spec: the declaration of \<open>Val\<close> is not part of the interpreter's
  file. By the spec it is a tagged union with the variants Nil, Bool, Number, String,
  Object and Func, where Object and Func have reference semantics: an Object value is
  a reference into the object heap of the machine, a Func value a reference to a
  function value held by the rest of the runtime. A Number is a float64; it is
  modelled by the real number it denotes, which is exact for the small integers
  used as \<open>args\<close> keys (no arithmetic is done on the payload here: the
  interpreter hands it to the injected arithmetic).
\<close>

datatype Val =
    Nil_val
  | Bool bool
  | Number real
  | String string
  | Object nat
  | Func nat

text \<open>The panics of the interpreter and of the assembler, as values.\<close>

datatype error =
    IndexOutOfRange
  | NilDereference
  | VariableNotFound string
  | UnknownVariable string
  | InvalidFlag
  | UnknownOpcode
  | TypeError string string string
  | NoSuchMethod
  | TypeAssertion
  | CoroFailure string
  | Panic string

section \<open>The operand stack\<close>

text \<open>
  \<open>valStack\<close> is a slice \<open>st\<close> and a stack pointer \<open>sp\<close>. Go indexes the slice
  with a bounds check, so an index outside \<open>0 .. len(st) - 1\<close> is the panic
  \<open>IndexOutOfRange\<close>; the fields keep the values they had when the panic was raised.
\<close>

record valStack =
  st :: "Val list"
  sp :: int

definition newValStack :: "int \<Rightarrow> valStack" where
  "newValStack sz = \<lparr>st = [], sp = 0\<rparr>"

definition push :: "Val \<Rightarrow> valStack \<Rightarrow> (error + unit) \<times> valStack" where
  "push v vs =
     (if sp vs = int (length (st vs))
      then (Inr (), vs\<lparr>st := st vs @ [v], sp := sp vs + 1\<rparr>)
      else if 0 \<le> sp vs \<and> sp vs < int (length (st vs))
      then (Inr (), vs\<lparr>st := (st vs)[nat (sp vs) := v], sp := sp vs + 1\<rparr>)
      else (Inl IndexOutOfRange, vs))"

definition pop :: "valStack \<Rightarrow> (error + Val) \<times> valStack" where
  "pop vs =
     (let vs1 = vs\<lparr>sp := sp vs - 1\<rparr> in
      if 0 \<le> sp vs1 \<and> sp vs1 < int (length (st vs1))
      then (Inr (st vs1 ! nat (sp vs1)), vs1\<lparr>st := (st vs1)[nat (sp vs1) := Nil_val]\<rparr>)
      else (Inl IndexOutOfRange, vs1))"

section \<open>Bookmark and range-coroutine stacks\<close>

text \<open>\<open>bkmStack\<close>: the same slice-and-pointer layout, over stack depths; \<open>pop\<close> does
  not clear the slot.\<close>

record bkmStack =
  bkm_st :: "int list"
  bkm_sp :: int

definition bkm_push :: "int \<Rightarrow> bkmStack \<Rightarrow> (error + unit) \<times> bkmStack" where
  "bkm_push i bs =
     (if bkm_sp bs = int (length (bkm_st bs))
      then (Inr (), bs\<lparr>bkm_st := bkm_st bs @ [i], bkm_sp := bkm_sp bs + 1\<rparr>)
      else if 0 \<le> bkm_sp bs \<and> bkm_sp bs < int (length (bkm_st bs))
      then (Inr (), bs\<lparr>bkm_st := (bkm_st bs)[nat (bkm_sp bs) := i], bkm_sp := bkm_sp bs + 1\<rparr>)
      else (Inl IndexOutOfRange, bs))"

definition bkm_pop :: "bkmStack \<Rightarrow> (error + int) \<times> bkmStack" where
  "bkm_pop bs =
     (let bs1 = bs\<lparr>bkm_sp := bkm_sp bs - 1\<rparr> in
      if 0 \<le> bkm_sp bs1 \<and> bkm_sp bs1 < int (length (bkm_st bs1))
      then (Inr (bkm_st bs1 ! nat (bkm_sp bs1)), bs1)
      else (Inl IndexOutOfRange, bs1))"

text \<open>
  Modelled from the spec: \<open>rangeStack\<close> is declared outside the interpreter's file. It
  is the stack of the live coroutine handles, and the interpreter reads
  \<open>f.rng.st[f.rng.sp-1]\<close>, so it has the same two fields; its elements are handles of
  the coroutine library, here their identifiers.
\<close>

record rangeStack =
  rng_st :: "nat list"
  rng_sp :: int

section \<open>Instructions, prototypes and the execution frame\<close>

text \<open>
  Modelled from the spec: the bytecode package is not part of the interpreter's file.
  An instruction carries an opcode, a flag and a 64-bit unsigned index, which the
  interpreter reads with \<open>Opcode()\<close>, \<open>Flag()\<close> and \<open>Index()\<close>; the bit layout is not
  modelled. The opcodes and flags are those the interpreter names; \<open>OP_other\<close> and
  \<open>FLG_other\<close> stand for every other one.
\<close>

datatype Opcode =
    OP_RET | OP_YLD | OP_PUSH | OP_POP
  | OP_ADD | OP_SUB | OP_MUL | OP_DIV | OP_MOD | OP_NOT | OP_UNM
  | OP_EQ | OP_NEQ | OP_LT | OP_LTE | OP_GT | OP_GTE
  | OP_TEST | OP_JMP
  | OP_NEW | OP_SFLD | OP_GFLD | OP_CFLD | OP_CALL
  | OP_RNGS | OP_RNGP | OP_RNGE
  | OP_BKMS | OP_BKME
  | OP_DUMP
  | OP_other

datatype Flag = FLG_K | FLG_V | FLG_N | FLG_T | FLG_F | FLG_A | FLG_Jf | FLG_other

datatype Instr = Instr (Opcode: Opcode) (Flag: Flag) (Index: "64 word")

text \<open>
  Modelled from the spec: the function value (\<open>agoraFuncVal\<close>) and the prototype
  (\<open>agoraFuncDef\<close>) are declared outside the interpreter's file; their fields here are
  those the interpreter uses. \<open>f.val.coroState\<close> is the saved suspended state, a
  pointer to an execution frame: \<open>run\<close> only ever stores \<open>nil\<close> or its own receiver
  \<open>f\<close> there, and a frame is resumed through that pointer, so the field is one of the
  two. \<open>mod_fns\<close> is \<open>proto.mod.fns\<close>, the prototypes of the module, by their handles. The
  execution context \<open>proto.ctx\<close> is among the collaborators below.
\<close>

datatype vm_ptr = nil_vm | this_vm

record agoraFuncVal =
  coroState :: vm_ptr

record agoraFuncDef =
  kTable :: "Val list"
  lTable :: "string list"
  code :: "Instr list"
  expArgs :: int
  stackSz :: int
  mod_fns :: "nat list"

record agoraFuncVM =
  val :: agoraFuncVal
  proto :: agoraFuncDef
  debug :: bool
  pc :: int
  stk :: valStack
  rng :: rangeStack
  bkm :: bkmStack
  vars :: "string \<rightharpoonup> Val"
  this :: Val
  args :: Val

text \<open>
  The machine is the frame together with what the frame's instructions reach outside
  it: the object heap (\<open>objs\<close>, an Object value is an index into it), the log of the
  coroutine handles released so far (\<open>released\<close>), and the rest of the runtime
  (\<open>world\<close>: enclosing scopes, other function values, the coroutines' own state).
\<close>

record 'w machine = agoraFuncVM +
  objs :: "(Val \<rightharpoonup> Val) list"
  released :: "nat list"
  world :: 'w

text \<open>
  What a coroutine's \<open>Resume\<close> returns: an \<open>interface{}\<close> value, which is a Val, a
  slice of such values, or something else (\<open>nil\<close> included), and an error, which is
  \<open>nil\<close>, \<open>ErrEndOfCoro\<close> or another error.
\<close>

datatype iface = IVal Val | ISlice "iface list" | IOther

datatype coro_error = ErrEndOfCoro | ErrOther string

text \<open>
  The collaborators whose code is outside the interpreter: the injected arithmetic
  and comparer, the methods of \<open>Val\<close>, the scope chain of the execution context, calls
  of function values, closures, and the coroutine library. Each may fail and may
  change anything it reaches, so each is a transformer of the whole machine that
  returns a result or a panic; the theorems below hold whatever they do.
  \<open>Func_Call\<close> takes the bound \<open>this\<close>, \<open>None\<close> for Go's \<open>nil\<close>. \<open>getVar\<close> returns
  the value together with the found flag (\<open>None\<close> when the flag is false).
  \<open>Val_String\<close> is only applied to entries of the constant table, which are literals.
\<close>

record 'w env =
  Arith_Add :: "Val \<Rightarrow> Val \<Rightarrow> 'w machine \<Rightarrow> (error + Val) \<times> 'w machine"
  Arith_Sub :: "Val \<Rightarrow> Val \<Rightarrow> 'w machine \<Rightarrow> (error + Val) \<times> 'w machine"
  Arith_Mul :: "Val \<Rightarrow> Val \<Rightarrow> 'w machine \<Rightarrow> (error + Val) \<times> 'w machine"
  Arith_Div :: "Val \<Rightarrow> Val \<Rightarrow> 'w machine \<Rightarrow> (error + Val) \<times> 'w machine"
  Arith_Mod :: "Val \<Rightarrow> Val \<Rightarrow> 'w machine \<Rightarrow> (error + Val) \<times> 'w machine"
  Arith_Unm :: "Val \<Rightarrow> 'w machine \<Rightarrow> (error + Val) \<times> 'w machine"
  Cmp :: "Val \<Rightarrow> Val \<Rightarrow> 'w machine \<Rightarrow> (error + int) \<times> 'w machine"
  Val_Bool :: "Val \<Rightarrow> 'w machine \<Rightarrow> (error + bool) \<times> 'w machine"
  Val_String :: "Val \<Rightarrow> string"
  getVar :: "string \<Rightarrow> 'w machine \<Rightarrow> (error + Val option) \<times> 'w machine"
  setVar :: "string \<Rightarrow> Val \<Rightarrow> 'w machine \<Rightarrow> (error + bool) \<times> 'w machine"
  Func_Call :: "nat \<Rightarrow> Val option \<Rightarrow> Val list \<Rightarrow> 'w machine \<Rightarrow> (error + Val list) \<times> 'w machine"
  newAgoraFuncVal :: "nat \<Rightarrow> 'w machine \<Rightarrow> (error + Val) \<times> 'w machine"
  newCoro :: "Val list \<Rightarrow> 'w machine \<Rightarrow> (error + nat) \<times> 'w machine"
  Resume :: "nat \<Rightarrow> 'w machine \<Rightarrow> (error + iface \<times> coro_error option) \<times> 'w machine"
  ctx_dump :: "int \<Rightarrow> 'w machine \<Rightarrow> (error + unit) \<times> 'w machine"

section \<open>Sequencing of operations that may panic\<close>

definition andThen ::
  "('s \<Rightarrow> (error + 'a) \<times> 's) \<Rightarrow> ('a \<Rightarrow> 's \<Rightarrow> (error + 'b) \<times> 's) \<Rightarrow> 's \<Rightarrow> (error + 'b) \<times> 's" where
  "andThen p q s = (case p s of (Inl e, s') \<Rightarrow> (Inl e, s') | (Inr a, s') \<Rightarrow> q a s')"

definition ok :: "'a \<Rightarrow> 's \<Rightarrow> (error + 'a) \<times> 's" where
  "ok a s = (Inr a, s)"

definition panic :: "error \<Rightarrow> 's \<Rightarrow> (error + 'a) \<times> 's" where
  "panic e s = (Inl e, s)"

definition stk_push :: "Val \<Rightarrow> 'w machine \<Rightarrow> (error + unit) \<times> 'w machine" where
  "stk_push v f = (case push v (stk f) of (r, vs) \<Rightarrow> (r, f\<lparr>stk := vs\<rparr>))"

definition stk_pop :: "'w machine \<Rightarrow> (error + Val) \<times> 'w machine" where
  "stk_pop f = (case pop (stk f) of (r, vs) \<Rightarrow> (r, f\<lparr>stk := vs\<rparr>))"

text \<open>\<open>for _, v := range vals { f.stk.push(v) }\<close>\<close>

fun pushAll :: "Val list \<Rightarrow> 'w machine \<Rightarrow> (error + unit) \<times> 'w machine" where
  "pushAll [] f = (Inr (), f)"
| "pushAll (v # vs) f =
     (case stk_push v f of (Inl e, f') \<Rightarrow> (Inl e, f') | (Inr _, f') \<Rightarrow> pushAll vs f')"

text \<open>
  \<open>args := make([]Val, ix); for j := ix; j > 0; j-- { args[j-1] = f.stk.pop() }\<close>:
  the value popped first is the last argument. The accumulator holds
  \<open>args[j..ix-1]\<close>.
\<close>

primrec popArgs :: "nat \<Rightarrow> Val list \<Rightarrow> 'w machine \<Rightarrow> (error + Val list) \<times> 'w machine" where
  "popArgs 0 acc f = (Inr acc, f)"
| "popArgs (Suc j) acc f =
     (case stk_pop f of (Inl e, f') \<Rightarrow> (Inl e, f') | (Inr v, f') \<Rightarrow> popArgs j (v # acc) f')"

section \<open>Objects and range coroutines\<close>

text \<open>
  Modelled from the spec: the Object type (\<open>NewObject\<close>, \<open>Set\<close>, \<open>Get\<close>,
  \<open>callMethod\<close>) is not part of the interpreter's file. The spec gives an Object as
  a mutable key-to-value mapping with reference semantics whose keys are values,
  \<open>get(key)\<close> answering Nil for an absent key, and \<open>call-method\<close> invoking the method
  stored under a name with the object bound as \<open>this\<close>.
\<close>

definition NewObject :: "'w machine \<Rightarrow> (error + nat) \<times> 'w machine" where
  "NewObject f = (Inr (length (objs f)), f\<lparr>objs := objs f @ [Map.empty]\<rparr>)"

definition Object_Set :: "nat \<Rightarrow> Val \<Rightarrow> Val \<Rightarrow> 'w machine \<Rightarrow> (error + unit) \<times> 'w machine" where
  "Object_Set ob k v f =
     (if ob < length (objs f)
      then (Inr (), f\<lparr>objs := (objs f)[ob := (objs f ! ob)(k \<mapsto> v)]\<rparr>)
      else (Inl NilDereference, f))"

definition Object_Get :: "nat \<Rightarrow> Val \<Rightarrow> 'w machine \<Rightarrow> (error + Val) \<times> 'w machine" where
  "Object_Get ob k f =
     (if ob < length (objs f)
      then (Inr (case (objs f ! ob) k of None \<Rightarrow> Nil_val | Some v \<Rightarrow> v), f)
      else (Inl NilDereference, f))"

text \<open>Modelled from the spec: \<open>Type\<close>, the name of a value's variant, used in type
  errors.\<close>

fun Type :: "Val \<Rightarrow> string" where
  "Type Nil_val = ''nil''"
| "Type (Bool _) = ''bool''"
| "Type (Number _) = ''number''"
| "Type (String _) = ''string''"
| "Type (Object _) = ''object''"
| "Type (Func _) = ''func''"

definition callMethod ::
  "'w env \<Rightarrow> nat \<Rightarrow> Val \<Rightarrow> Val list \<Rightarrow> 'w machine \<Rightarrow> (error + Val list) \<times> 'w machine" where
  "callMethod env ob k as f =
     (if ob < length (objs f)
      then (case (objs f ! ob) k of
              Some (Func fn) \<Rightarrow> Func_Call env fn (Some (Object ob)) as f
            | Some v \<Rightarrow> (Inl (TypeError (Type v) [] ''func''), f)
            | None \<Rightarrow> (Inl NoSuchMethod, f))
      else (Inl NilDereference, f))"

text \<open>
  Modelled from the spec: the methods \<open>push\<close>, \<open>pop\<close> and \<open>clear\<close> of \<open>rangeStack\<close> are
  not part of the interpreter's file. By the spec, \<open>push(args...)\<close> starts a
  coroutine seeded with \<open>args\<close> and stores its handle, \<open>pop()\<close> releases the most
  recently pushed handle, and frame teardown releases every handle the frame still
  holds. Releasing a handle appends it to \<open>released\<close>. The handles a frame holds are
  the entries below \<open>rng_sp\<close>.
\<close>

definition rng_held :: "rangeStack \<Rightarrow> nat list" where
  "rng_held rs = take (nat (rng_sp rs)) (rng_st rs)"

definition rng_push :: "'w env \<Rightarrow> Val list \<Rightarrow> 'w machine \<Rightarrow> (error + unit) \<times> 'w machine" where
  "rng_push env as f =
     (case newCoro env as f of
        (Inl e, f') \<Rightarrow> (Inl e, f')
      | (Inr c, f') \<Rightarrow>
          (let rs = rng f' in
           if rng_sp rs = int (length (rng_st rs))
           then (Inr (), f'\<lparr>rng := rs\<lparr>rng_st := rng_st rs @ [c], rng_sp := rng_sp rs + 1\<rparr>\<rparr>)
           else if 0 \<le> rng_sp rs \<and> rng_sp rs < int (length (rng_st rs))
           then (Inr (), f'\<lparr>rng := rs\<lparr>rng_st := (rng_st rs)[nat (rng_sp rs) := c],
                                         rng_sp := rng_sp rs + 1\<rparr>\<rparr>)
           else (Inl IndexOutOfRange, f')))"

definition rng_pop :: "'w machine \<Rightarrow> (error + unit) \<times> 'w machine" where
  "rng_pop f =
     (let rs = (rng f)\<lparr>rng_sp := rng_sp (rng f) - 1\<rparr> in
      if 0 \<le> rng_sp rs \<and> rng_sp rs < int (length (rng_st rs))
      then (Inr (), f\<lparr>rng := rs, released := released f @ [rng_st rs ! nat (rng_sp rs)]\<rparr>)
      else (Inl IndexOutOfRange, f\<lparr>rng := rs\<rparr>))"

definition rng_clear :: "'w machine \<Rightarrow> 'w machine" where
  "rng_clear f =
     f\<lparr>rng := (rng f)\<lparr>rng_sp := 0\<rparr>, released := released f @ rev (rng_held (rng f))\<rparr>"

section \<open>The instructions\<close>

text \<open>\<open>getVal\<close>: a value from somewhere, depending on the flag.\<close>

definition kTable_at :: "64 word \<Rightarrow> 'w machine \<Rightarrow> (error + Val) \<times> 'w machine" where
  "kTable_at ix f =
     (if unat ix < length (kTable (proto f)) then (Inr (kTable (proto f) ! unat ix), f)
      else (Inl IndexOutOfRange, f))"

fun getVal :: "'w env \<Rightarrow> Flag \<Rightarrow> 64 word \<Rightarrow> 'w machine \<Rightarrow> (error + Val) \<times> 'w machine" where
  "getVal env FLG_K ix f = kTable_at ix f"
| "getVal env FLG_V ix f =
     andThen (kTable_at ix) (\<lambda>k.
       andThen (getVar env (Val_String env k)) (\<lambda>r.
         case r of None \<Rightarrow> panic (VariableNotFound (Val_String env k)) | Some v \<Rightarrow> ok v)) f"
| "getVal env FLG_N ix f = (Inr Nil_val, f)"
| "getVal env FLG_T ix f = (Inr (this f), f)"
| "getVal env FLG_F ix f =
     (if unat ix < length (mod_fns (proto f))
      then newAgoraFuncVal env (mod_fns (proto f) ! unat ix) f
      else (Inl IndexOutOfRange, f))"
| "getVal env FLG_A ix f = (Inr (args f), f)"
| "getVal env FLG_Jf ix f = (Inl InvalidFlag, f)"
| "getVal env FLG_other ix f = (Inl InvalidFlag, f)"

text \<open>\<open>y, x := f.stk.pop(), f.stk.pop(); f.stk.push(op(x, y))\<close>\<close>

definition binop ::
  "(Val \<Rightarrow> Val \<Rightarrow> 'w machine \<Rightarrow> (error + Val) \<times> 'w machine) \<Rightarrow> 'w machine \<Rightarrow> (error + unit) \<times> 'w machine" where
  "binop opr = andThen stk_pop (\<lambda>y. andThen stk_pop (\<lambda>x. andThen (opr x y) stk_push))"

text \<open>\<open>y, x := f.stk.pop(), f.stk.pop(); f.stk.push(Bool(rel(cmp.Cmp(x, y))))\<close>\<close>

definition cmpop :: "'w env \<Rightarrow> (int \<Rightarrow> bool) \<Rightarrow> 'w machine \<Rightarrow> (error + unit) \<times> 'w machine" where
  "cmpop env rel =
     andThen stk_pop (\<lambda>y. andThen stk_pop (\<lambda>x.
       andThen (Cmp env x y) (\<lambda>c. stk_push (Bool (rel c)))))"

text \<open>The loop of \<open>OP_NEW\<close>:
  \<open>for j := ix; j > 0; j-- { key, val := f.stk.pop(), f.stk.pop(); ob.Set(key, val) }\<close>.
  Go evaluates the two calls from left to right: the first pop is the key.\<close>

primrec newFields :: "nat \<Rightarrow> nat \<Rightarrow> 'w machine \<Rightarrow> (error + unit) \<times> 'w machine" where
  "newFields 0 ob f = (Inr (), f)"
| "newFields (Suc j) ob f =
     (case stk_pop f of
        (Inl e, f1) \<Rightarrow> (Inl e, f1)
      | (Inr key, f1) \<Rightarrow>
          (case stk_pop f1 of
             (Inl e, f2) \<Rightarrow> (Inl e, f2)
           | (Inr vl, f2) \<Rightarrow>
               (case Object_Set ob key vl f2 of
                  (Inl e, f3) \<Rightarrow> (Inl e, f3)
                | (Inr _, f3) \<Rightarrow> newFields j ob f3)))"

text \<open>The value loop of \<open>OP_RNGP\<close>:
  \<open>for j := uint64(0); j < ix; j++ { if j < len(vals) { push(vals[j].(Val)) } else { push(Nil) } }\<close>.
  The type assertion panics on an element that is not a Val.\<close>

function pushVals :: "nat \<Rightarrow> nat \<Rightarrow> iface list \<Rightarrow> 'w machine \<Rightarrow> (error + unit) \<times> 'w machine" where
  "pushVals j n vals f =
     (if j < n
      then (case (if j < length vals
                  then (case vals ! j of IVal v \<Rightarrow> stk_push v f | _ \<Rightarrow> (Inl TypeAssertion, f))
                  else stk_push Nil_val f) of
              (Inl e, f') \<Rightarrow> (Inl e, f')
            | (Inr _, f') \<Rightarrow> pushVals (j + 1) n vals f')
      else (Inr (), f))"
  by pat_completeness auto
termination
  by (relation "measure (\<lambda>(j, n, vals, f). n - j)") auto

declare pushVals.simps [simp del]

text \<open>The loop of \<open>OP_BKME\<close>:
  \<open>for got := uint64(f.stk.sp - bkm); got != ix; got = uint64(f.stk.sp - bkm) { ... }\<close>.
  The conversion of the int difference to uint64 is \<open>word_of_int\<close>.\<close>

definition got_of :: "int \<Rightarrow> 'w machine \<Rightarrow> 64 word" where
  "got_of b f = word_of_int (sp (stk f) - b)"

lemma stk_push_sp: "stk_push v f = (Inr u, f') \<Longrightarrow> sp (stk f') = sp (stk f) + 1"
  by (auto simp: stk_push_def push_def split: if_splits)

lemma stk_pop_sp: "stk_pop f = (r, f') \<Longrightarrow> sp (stk f') = sp (stk f) - 1"
  by (auto simp: stk_pop_def pop_def Let_def split: if_splits)

lemma uint_succ_less: "(a :: 64 word) < b \<Longrightarrow> uint (a + 1) = uint a + 1"
proof -
  assume "a < b"
  then have "uint a < uint b" by (simp add: word_less_def)
  moreover have "uint b < 2 ^ 64" using uint_bounded [of b] by simp
  moreover have "0 \<le> uint a" by simp
  ultimately show ?thesis by (simp add: uint_word_ariths)
qed

lemma uint_pred_greater: "(b :: 64 word) < a \<Longrightarrow> uint (a - 1) = uint a - 1"
proof -
  assume "b < a"
  then have "uint b < uint a" by (simp add: word_less_def)
  moreover have "uint a < 2 ^ 64" using uint_bounded [of a] by simp
  moreover have "0 \<le> uint b" by (rule uint_ge_0)
  ultimately have "0 \<le> uint a - 1" "uint a - 1 < 2 ^ 64" by linarith+
  then show ?thesis by (simp add: uint_word_ariths)
qed

lemma got_succ:
  "got_of b f < ix \<Longrightarrow> sp (stk f') = sp (stk f) + 1 \<Longrightarrow> uint (got_of b f') = uint (got_of b f) + 1"
proof -
  assume a: "got_of b f < ix" and s: "sp (stk f') = sp (stk f) + 1"
  have "got_of b f' = got_of b f + 1" by (simp add: got_of_def s algebra_simps)
  with uint_succ_less [OF a] show ?thesis by simp
qed

lemma got_pred:
  "ix < got_of b f \<Longrightarrow> sp (stk f') = sp (stk f) - 1 \<Longrightarrow> uint (got_of b f') = uint (got_of b f) - 1"
proof -
  assume a: "ix < got_of b f" and s: "sp (stk f') = sp (stk f) - 1"
  have "got_of b f' = got_of b f - 1" by (simp add: got_of_def s algebra_simps)
  with uint_pred_greater [OF a] show ?thesis by simp
qed

function bkmeLoop :: "int \<Rightarrow> 64 word \<Rightarrow> 'w machine \<Rightarrow> (error + unit) \<times> 'w machine" where
  "bkmeLoop b ix f =
     (if got_of b f = ix then (Inr (), f)
      else if got_of b f < ix
      then (case stk_push Nil_val f of
              (Inl e, f') \<Rightarrow> (Inl e, f')
            | (Inr _, f') \<Rightarrow> bkmeLoop b ix f')
      else (case stk_pop f of
              (Inl e, f') \<Rightarrow> (Inl e, f')
            | (Inr _, f') \<Rightarrow> bkmeLoop b ix f'))"
  by pat_completeness auto
termination
proof (relation "measure (\<lambda>(b, ix, f). nat \<bar>uint ix - uint (got_of b f)\<bar>)", goal_cases)
  case 1
  show ?case by simp
next
  case (2 b ix f x f' u)
  then have lt: "got_of b f < ix" and p: "stk_push Nil_val f = (Inr u, f')" by simp_all
  from lt have "uint (got_of b f) < uint ix" by (simp add: word_less_def)
  with got_succ [OF lt stk_push_sp [OF p]] show ?case by simp
next
  case (3 b ix f x f' u)
  then have gt: "ix < got_of b f" and p: "stk_pop f = (Inr u, f')" by simp_all
  from gt have "uint ix < uint (got_of b f)" by (simp add: word_less_def)
  with got_pred [OF gt stk_pop_sp [OF p]] show ?case by simp
qed

declare bkmeLoop.simps [simp del]

text \<open>The instruction \<open>OP_RNGP\<close>: resume the coroutine on top of the range stack, push
  the values if there was no error, panic on an error other than \<open>ErrEndOfCoro\<close>, push
  the condition.\<close>

definition rngp :: "'w env \<Rightarrow> 64 word \<Rightarrow> 'w machine \<Rightarrow> (error + unit) \<times> 'w machine" where
  "rngp env ix f =
     (let i = rng_sp (rng f) - 1 in
      if 0 \<le> i \<and> i < int (length (rng_st (rng f)))
      then andThen (Resume env (rng_st (rng f) ! nat i)) (\<lambda>(v, e).
             let vals = (case v of ISlice sl \<Rightarrow> sl | _ \<Rightarrow> [v]) in
             andThen (case e of
                        None \<Rightarrow> pushVals 0 (unat ix) vals
                      | Some ErrEndOfCoro \<Rightarrow> ok ()
                      | Some (ErrOther msg) \<Rightarrow> panic (CoroFailure msg))
               (\<lambda>_. stk_push (Bool (e = None)))) f
      else (Inl IndexOutOfRange, f))"

text \<open>
  How an iteration of the dispatch loop ends: it goes on with the next instruction,
  or \<open>run\<close> returns from \<open>OP_RET\<close> or from \<open>OP_YLD\<close> with the result list.
\<close>

datatype ctl = Continue | Returned "Val list" | Yielded "Val list"

text \<open>Modelled from the spec: \<open>Set1\<close> is not part of the interpreter's file; RET and
  YLD return the popped value as the single result.\<close>

definition Set1 :: "Val \<Rightarrow> Val list" where
  "Set1 v = [v]"

text \<open>
  An instruction yields a panic or the way the loop goes on, the value of the local
  \<open>clearRange\<close> after it, and the machine. \<open>clearRange\<close> starts as true and is only
  assigned (false) by \<open>OP_YLD\<close>, which leaves the loop, by its return or by a panic of
  its pop.
\<close>

definition cont :: "(error + 'a) \<times> 's \<Rightarrow> (error + ctl) \<times> bool \<times> 's" where
  "cont r = (case r of (Inl e, s) \<Rightarrow> (Inl e, True, s) | (Inr _, s) \<Rightarrow> (Inr Continue, True, s))"

definition jump :: "int \<Rightarrow> 'w machine \<Rightarrow> (error + unit) \<times> 'w machine" where
  "jump d f = (Inr (), f\<lparr>pc := pc f + d\<rparr>)"

text \<open>
  The body of the \<open>switch op\<close>, run after the program counter was incremented.
  \<open>int(ix)\<close> is the conversion of the uint64 index to a 64-bit int (\<open>sint\<close>); the
  program counter and the stack pointers are not bounded here.
\<close>

fun exec :: "'w env \<Rightarrow> Opcode \<Rightarrow> Flag \<Rightarrow> 64 word \<Rightarrow> 'w machine \<Rightarrow> (error + ctl) \<times> bool \<times> 'w machine" where
  "exec env OP_RET flg ix f =
     (case stk_pop (f\<lparr>val := (val f)\<lparr>coroState := nil_vm\<rparr>\<rparr>) of
        (Inl e, f') \<Rightarrow> (Inl e, True, f')
      | (Inr v, f') \<Rightarrow> (Inr (Returned (Set1 v)), True, f'))"
| "exec env OP_YLD flg ix f =
     (case stk_pop (f\<lparr>val := (val f)\<lparr>coroState := this_vm\<rparr>\<rparr>) of
        (Inl e, f') \<Rightarrow> (Inl e, False, f')
      | (Inr v, f') \<Rightarrow> (Inr (Yielded (Set1 v)), False, f'))"
| "exec env OP_PUSH flg ix f = cont (andThen (getVal env flg ix) stk_push f)"
| "exec env OP_POP flg ix f =
     cont (andThen (kTable_at ix) (\<lambda>k. andThen stk_pop (\<lambda>v.
             andThen (setVar env (Val_String env k) v) (\<lambda>found.
               if found then ok () else panic (UnknownVariable (Val_String env k))))) f)"
| "exec env OP_ADD flg ix f = cont (binop (Arith_Add env) f)"
| "exec env OP_SUB flg ix f = cont (binop (Arith_Sub env) f)"
| "exec env OP_MUL flg ix f = cont (binop (Arith_Mul env) f)"
| "exec env OP_DIV flg ix f = cont (binop (Arith_Div env) f)"
| "exec env OP_MOD flg ix f = cont (binop (Arith_Mod env) f)"
| "exec env OP_NOT flg ix f =
     cont (andThen stk_pop (\<lambda>x. andThen (Val_Bool env x) (\<lambda>b. stk_push (Bool (\<not> b)))) f)"
| "exec env OP_UNM flg ix f =
     cont (andThen stk_pop (\<lambda>x. andThen (Arith_Unm env x) stk_push) f)"
| "exec env OP_EQ flg ix f = cont (cmpop env (\<lambda>c. c = 0) f)"
| "exec env OP_NEQ flg ix f = cont (cmpop env (\<lambda>c. c \<noteq> 0) f)"
| "exec env OP_LT flg ix f = cont (cmpop env (\<lambda>c. c < 0) f)"
| "exec env OP_LTE flg ix f = cont (cmpop env (\<lambda>c. c \<le> 0) f)"
| "exec env OP_GT flg ix f = cont (cmpop env (\<lambda>c. c > 0) f)"
| "exec env OP_GTE flg ix f = cont (cmpop env (\<lambda>c. c \<ge> 0) f)"
| "exec env OP_TEST flg ix f =
     cont (andThen stk_pop (\<lambda>x. andThen (Val_Bool env x) (\<lambda>b.
             if \<not> b then jump (sint ix) else ok ())) f)"
| "exec env OP_JMP flg ix f =
     cont (if flg = FLG_Jf then jump (sint ix) f else jump (- (sint ix + 1)) f)"
| "exec env OP_NEW flg ix f =
     cont (andThen NewObject (\<lambda>ob. andThen (newFields (unat ix) ob) (\<lambda>_.
             stk_push (Object ob))) f)"
| "exec env OP_SFLD flg ix f =
     cont (andThen stk_pop (\<lambda>vr. andThen stk_pop (\<lambda>k. andThen stk_pop (\<lambda>vl.
             case vr of
               Object ob \<Rightarrow> Object_Set ob k vl
             | _ \<Rightarrow> panic (TypeError (Type vr) [] ''object'')))) f)"
| "exec env OP_GFLD flg ix f =
     cont (andThen stk_pop (\<lambda>vr. andThen stk_pop (\<lambda>k.
             case vr of
               Object ob \<Rightarrow> andThen (Object_Get ob k) stk_push
             | _ \<Rightarrow> panic (TypeError (Type vr) [] ''object''))) f)"
| "exec env OP_CFLD flg ix f =
     cont (andThen stk_pop (\<lambda>vr. andThen stk_pop (\<lambda>k. andThen (popArgs (unat ix) []) (\<lambda>avs.
             case vr of
               Object ob \<Rightarrow> andThen (callMethod env ob k avs) pushAll
             | _ \<Rightarrow> panic (TypeError (Type vr) [] ''object'')))) f)"
| "exec env OP_CALL flg ix f =
     cont (andThen stk_pop (\<lambda>x.
             case x of
               Func fn \<Rightarrow> andThen (popArgs (unat ix) []) (\<lambda>avs.
                            andThen (Func_Call env fn None avs) pushAll)
             | _ \<Rightarrow> panic (TypeError (Type x) [] ''func'')) f)"
| "exec env OP_RNGS flg ix f = cont (andThen (popArgs (unat ix) []) (rng_push env) f)"
| "exec env OP_RNGP flg ix f = cont (rngp env ix f)"
| "exec env OP_RNGE flg ix f = cont (rng_pop f)"
| "exec env OP_BKMS flg ix f =
     cont (case bkm_push (sp (stk f)) (bkm f) of (r, bs) \<Rightarrow> (r, f\<lparr>bkm := bs\<rparr>))"
| "exec env OP_BKME flg ix f =
     cont (andThen (\<lambda>g. case bkm_pop (bkm g) of (r, bs) \<Rightarrow> (r, g\<lparr>bkm := bs\<rparr>))
             (\<lambda>b. bkmeLoop b ix) f)"
| "exec env OP_DUMP flg ix f =
     cont (if debug f then ctx_dump env (sint ix) f else (Inr (), f))"
| "exec env OP_other flg ix f = (Inl UnknownOpcode, True, f)"

text \<open>One iteration of \<open>for { ... }\<close>: fetch (with Go's bounds check), decode, increment
  the program counter, execute.\<close>

definition step :: "'w env \<Rightarrow> 'w machine \<Rightarrow> (error + ctl) \<times> bool \<times> 'w machine" where
  "step env f =
     (if 0 \<le> pc f \<and> pc f < int (length (code (proto f)))
      then (let i = code (proto f) ! nat (pc f) in
            exec env (Opcode i) (Flag i) (Index i) (f\<lparr>pc := pc f + 1\<rparr>))
      else (Inl IndexOutOfRange, True, f))"

text \<open>The dispatch loop has no bound; \<open>None\<close> is a loop that never ends.\<close>

partial_function (option) loop :: "'w env \<Rightarrow> 'w machine \<Rightarrow> ((error + ctl) \<times> bool \<times> 'w machine) option" where
  "loop env f =
     (case step env f of
        (Inr Continue, cr, f') \<Rightarrow> loop env f'
      | (r, cr, f') \<Rightarrow> Some (r, cr, f'))"

text \<open>The frame is about to execute a YLD instruction.\<close>

definition at_yld :: "'w machine \<Rightarrow> bool" where
  "at_yld f = (0 \<le> pc f \<and> pc f < int (length (code (proto f)))
               \<and> Opcode (code (proto f) ! nat (pc f)) = OP_YLD)"

text \<open>The frame on which the last iteration of the dispatch loop runs.\<close>

partial_function (option) last_frame :: "'w env \<Rightarrow> 'w machine \<Rightarrow> 'w machine option" where
  "last_frame env f =
     (case step env f of
        (Inr Continue, cr, f') \<Rightarrow> last_frame env f'
      | (r, cr, f') \<Rightarrow> Some f)"

section \<open>Running a frame\<close>

text \<open>\<open>createLocals\<close>: every name of the local table is set to Nil.\<close>

definition createLocals :: "'w machine \<Rightarrow> 'w machine" where
  "createLocals f = f\<lparr>vars := fold (\<lambda>s m. m(s \<mapsto> Nil_val)) (lTable (proto f)) (vars f)\<rparr>"

text \<open>The loop
  \<open>for j, l := int64(0), int64(len(args)); j < f.proto.expArgs; j++ { ... }\<close>
  of the initial run; \<open>kTable[j]\<close> is bounds-checked.\<close>

function bindArgs :: "'w env \<Rightarrow> Val list \<Rightarrow> int \<Rightarrow> 'w machine \<Rightarrow> (error + unit) \<times> 'w machine" where
  "bindArgs env avs j f =
     (if j < expArgs (proto f)
      then (if 0 \<le> j \<and> j < int (length (kTable (proto f)))
            then bindArgs env avs (j + 1)
                   (f\<lparr>vars := (vars f)(Val_String env (kTable (proto f) ! nat j) \<mapsto>
                                  (if j < int (length avs) then avs ! nat j else Nil_val))\<rparr>)
            else (Inl IndexOutOfRange, f))
      else (Inr (), f))"
  by pat_completeness auto
termination
  by (relation "measure (\<lambda>(env, avs, j, f). nat (expArgs (proto f) - j))") auto

declare bindArgs.simps [simp del]

text \<open>What one iteration of that loop does to the variables, for the parameter with
  index \<open>k\<close>.\<close>

definition bindArg :: "'w env \<Rightarrow> agoraFuncDef \<Rightarrow> Val list \<Rightarrow> nat \<Rightarrow> (string \<rightharpoonup> Val) \<Rightarrow> (string \<rightharpoonup> Val)" where
  "bindArg env p avs k m =
     m(Val_String env (kTable p ! k) \<mapsto> (if k < length avs then avs ! k else Nil_val))"

text \<open>\<open>createArgsVal\<close>: Nil for no arguments, otherwise a new Object with
  \<open>o.Set(Number(i), v)\<close> for every argument.\<close>

fun setArgs :: "nat \<Rightarrow> nat \<Rightarrow> Val list \<Rightarrow> 'w machine \<Rightarrow> (error + unit) \<times> 'w machine" where
  "setArgs ob i [] f = (Inr (), f)"
| "setArgs ob i (v # vs) f =
     (case Object_Set ob (Number (real i)) v f of
        (Inl e, f') \<Rightarrow> (Inl e, f')
      | (Inr _, f') \<Rightarrow> setArgs ob (Suc i) vs f')"

definition createArgsVal :: "Val list \<Rightarrow> 'w machine \<Rightarrow> (error + Val) \<times> 'w machine" where
  "createArgsVal avs f =
     (if length avs = 0 then (Inr Nil_val, f)
      else andThen NewObject (\<lambda>ob. andThen (setArgs ob 0 avs) (\<lambda>_. ok (Object ob))) f)"

text \<open>The part of \<open>run\<close> before the loop: the initial run when the program counter is
  0, otherwise the resume of a coroutine, which pushes the first argument (or Nil).\<close>

definition enter :: "'w env \<Rightarrow> Val list \<Rightarrow> 'w machine \<Rightarrow> (error + unit) \<times> 'w machine" where
  "enter env avs f =
     (if pc f = 0
      then andThen (bindArgs env avs 0) (\<lambda>_. andThen (createArgsVal avs) (\<lambda>a g.
             (Inr (), g\<lparr>args := a\<rparr>))) (createLocals f)
      else stk_push (if length avs > 0 then avs ! 0 else Nil_val) f)"

text \<open>The deferred function: \<open>if clearRange { f.rng.clear() }\<close>.\<close>

definition teardown :: "(error + ctl) \<times> bool \<times> 'w machine \<Rightarrow> (error + ctl) \<times> 'w machine" where
  "teardown r = (case r of (res, cr, f) \<Rightarrow> (res, if cr then rng_clear f else f))"

definition run :: "'w env \<Rightarrow> 'w machine \<Rightarrow> Val list \<Rightarrow> ((error + ctl) \<times> 'w machine) option" where
  "run env f avs =
     (case enter env avs f of
        (Inl e, f1) \<Rightarrow> Some (teardown (Inl e, True, f1))
      | (Inr _, f1) \<Rightarrow> map_option teardown (loop env f1))"

section \<open>The assembler\<close>

text \<open>
  \<open>Compile\<close> reads its input with a line scanner; the model takes the lines. A Go string
  is a sequence of bytes, here a list of 8-bit characters. \<open>strings.TrimSpace\<close> and
  \<open>strings.Fields\<close> read the string as UTF-8 and take for white space the runes
  for which \<open>unicode.IsSpace\<close> holds: in Latin-1 the characters tab, line feed,
  vertical tab, form feed, carriage return, space, U+0085 and U+00A0, and beyond
  Latin-1 the runes with the Unicode property White_Space, which are (from Unicode
  6.3 on) U+1680, U+2000 to U+200A, U+2028, U+2029, U+202F, U+205F and U+3000.
  \<open>spaces\<close> lists the UTF-8 encodings of these runes. Bytes that do not encode a rune
  are read as U+FFFD, one byte wide, which is not white space; the first byte of
  every encoding in \<open>spaces\<close> starts a rune and the others continue one, so that a
  white space rune starts (or ends) a string exactly when one of the encodings is a
  prefix (or a suffix) of it.
\<close>

definition spaces :: "string list" where
  "spaces =
     [[CHR 0x09], [CHR 0x0A], [CHR 0x0B], [CHR 0x0C], [CHR 0x0D], [CHR 0x20],
      [CHR 0xC2, CHR 0x85], [CHR 0xC2, CHR 0xA0],
      [CHR 0xE1, CHR 0x9A, CHR 0x80],
      [CHR 0xE2, CHR 0x80, CHR 0x80], [CHR 0xE2, CHR 0x80, CHR 0x81], [CHR 0xE2, CHR 0x80, CHR 0x82],
      [CHR 0xE2, CHR 0x80, CHR 0x83], [CHR 0xE2, CHR 0x80, CHR 0x84], [CHR 0xE2, CHR 0x80, CHR 0x85],
      [CHR 0xE2, CHR 0x80, CHR 0x86], [CHR 0xE2, CHR 0x80, CHR 0x87], [CHR 0xE2, CHR 0x80, CHR 0x88],
      [CHR 0xE2, CHR 0x80, CHR 0x89], [CHR 0xE2, CHR 0x80, CHR 0x8A],
      [CHR 0xE2, CHR 0x80, CHR 0xA8], [CHR 0xE2, CHR 0x80, CHR 0xA9], [CHR 0xE2, CHR 0x80, CHR 0xAF],
      [CHR 0xE2, CHR 0x81, CHR 0x9F],
      [CHR 0xE3, CHR 0x80, CHR 0x80]]"

text \<open>The width in bytes of the white space rune at the start, and at the end, of a
  string; 0 when the rune there is not white space or the string is empty.\<close>

definition space_width :: "string \<Rightarrow> nat" where
  "space_width s = (case find (\<lambda>e. take (length e) s = e) spaces of None \<Rightarrow> 0 | Some e \<Rightarrow> length e)"

definition last_space_width :: "string \<Rightarrow> nat" where
  "last_space_width s =
     (case find (\<lambda>e. drop (length s - length e) s = e) spaces of None \<Rightarrow> 0 | Some e \<Rightarrow> length e)"

lemma space_width_less: "space_width s \<noteq> 0 \<Longrightarrow> length s - space_width s < length s"
proof -
  assume a: "space_width s \<noteq> 0"
  then obtain e where f: "find (\<lambda>e. take (length e) s = e) spaces = Some e"
    by (cases "find (\<lambda>e. take (length e) s = e) spaces") (auto simp: space_width_def)
  then have t: "take (length e) s = e" by (auto simp: find_Some_iff)
  from a f have w: "space_width s = length e" "length e \<noteq> 0" by (simp_all add: space_width_def)
  from t have "length (take (length e) s) = length e" by simp
  then have "length e \<le> length s" by simp
  moreover from w have "0 < length e" by simp
  ultimately have "length s - length e < length s" by arith
  with w show ?thesis by simp
qed

lemma last_space_width_less: "last_space_width s \<noteq> 0 \<Longrightarrow> length s - last_space_width s < length s"
proof -
  assume a: "last_space_width s \<noteq> 0"
  then obtain e where f: "find (\<lambda>e. drop (length s - length e) s = e) spaces = Some e"
    by (cases "find (\<lambda>e. drop (length s - length e) s = e) spaces") (auto simp: last_space_width_def)
  then have t: "drop (length s - length e) s = e" by (auto simp: find_Some_iff)
  from a f have w: "last_space_width s = length e" "length e \<noteq> 0" by (simp_all add: last_space_width_def)
  from t have "length (drop (length s - length e) s) = length e" by simp
  then have "length e \<le> length s" by simp
  moreover from w have "0 < length e" by simp
  ultimately have "length s - length e < length s" by arith
  with w show ?thesis by simp
qed

text \<open>\<open>strings.TrimSpace\<close>: the string without the white space runes at its start and,
  of what is left, at its end.\<close>

function TrimLeft :: "string \<Rightarrow> string" where
  "TrimLeft s = (if space_width s = 0 then s else TrimLeft (drop (space_width s) s))"
  by pat_completeness auto
termination
  by (relation "measure length") (simp_all add: space_width_less)

function TrimRight :: "string \<Rightarrow> string" where
  "TrimRight s = (if last_space_width s = 0 then s else TrimRight (take (length s - last_space_width s) s))"
  by pat_completeness auto
termination
  by (relation "measure length") (simp_all add: last_space_width_less)

declare TrimLeft.simps [simp del] TrimRight.simps [simp del]

definition TrimSpace :: "string \<Rightarrow> string" where
  "TrimSpace s = TrimRight (TrimLeft s)"

text \<open>\<open>strings.Fields\<close>: the maximal runs of runes that are not white space, in order;
  \<open>cur\<close> is the run being read.\<close>

function fields_from :: "string \<Rightarrow> string \<Rightarrow> string list" where
  "fields_from cur s =
     (if s = [] then (if cur = [] then [] else [cur])
      else if space_width s = 0 then fields_from (cur @ [hd s]) (tl s)
      else (if cur = [] then [] else [cur]) @ fields_from [] (drop (space_width s) s))"
  by pat_completeness auto
termination
  by (relation "measure (\<lambda>(cur, s). length s)") (simp_all add: space_width_less)

declare fields_from.simps [simp del]

definition Fields :: "string \<Rightarrow> string list" where
  "Fields s = fields_from [] s"

text \<open>
  Modelled from the spec: the runtime package that the assembler imports is not part
  of its file. The constants of a \<open>[k]\<close> section are integers, floats, strings,
  booleans and nil; the function record has the fields that the handlers assign
  through the pointer \<open>p\<close> (the prototype fields of the spec: stack-size hint,
  expected-argument count, debug file and lines, native flag, constant table,
  instructions). An instruction is kept as the triple given to \<open>NewInstr\<close>; opcodes and
  flags are numbers, the zero value being 0.
\<close>

datatype kval = KInt int | KFloat real | KString string | KBool bool | KNil

record GoblinFunc =
  IsNative :: bool
  StackSz :: int
  ExpArgs :: int
  ExpVars :: int
  Name :: string
  Dbg_File :: string
  Dbg_LineStart :: int
  Dbg_LineEnd :: int
  KTable :: "kval list"
  Code :: "(nat \<times> nat \<times> 64 word) list"

text \<open>
  The handlers append to \<open>ctx.Protos\<close> and \<open>Compile\<close> returns \<open>ctx\<close>, which the file
  does not declare: \<open>ctx\<close> is a variable of the package, declared outside the file, and
  all that the file uses of it is the field \<open>Protos\<close>, a list of pointers to function
  records. The state of a compilation holds this variable, the lines that the scanner
  has not read yet, and the function records allocated so far: a pointer is an index
  into \<open>heap\<close>, and \<open>None\<close> is \<open>nil\<close>.
\<close>

record compile_ctx =
  Protos :: "nat option list"

record asm_state =
  lines :: "string list"
  heap :: "GoblinFunc list"
  ctx :: compile_ctx

text \<open>
  The conversions of the standard library and of the runtime package. \<open>Atoi\<close> and
  \<open>ParseInt\<close> are used with their error dropped; the others may panic.
\<close>

record asm_env =
  Atoi :: "string \<Rightarrow> int"
  ParseInt :: "string \<Rightarrow> int"
  String_Int :: "string \<Rightarrow> error + int"
  String_Float :: "string \<Rightarrow> error + real"
  NewOpcode :: "string \<Rightarrow> error + nat"
  NewFlag :: "string \<Rightarrow> error + nat"

text \<open>
  The handlers are closures over the scanner that call each other through the map
  \<open>m\<close>, whose keys are \<open>[f]\<close>, \<open>[k]\<close> and \<open>[i]\<close>. The map is declared for functions of a
  \<open>*runtime.GoblinFunc\<close> and the handlers of \<open>[k]\<close> and \<open>[i]\<close> are written for a
  \<open>*runtime.FuncProto\<close>: the model takes the two for one type of pointer. A \<open>mode\<close>
  names the loop that reads the next line: the loop at the end of \<open>Compile\<close>, or the
  loop of a handler together with its variables (for \<open>[f]\<close> the counter \<open>i\<close> and the
  local pointer \<open>p\<close>, for \<open>[k]\<close> and \<open>[i]\<close> the argument \<open>p\<close>). The \<open>[f]\<close> handler ignores
  its argument and declares \<open>var p *runtime.GoblinFunc\<close>, which is \<open>nil\<close> and is never
  assigned.
\<close>

datatype mode = Top | SecF int "nat option" | SecK "nat option" | SecI "nat option"

definition m :: "string \<Rightarrow> (nat option \<Rightarrow> mode) option" where
  "m t = (if t = ''[f]'' then Some (\<lambda>_. SecF 0 None)
          else if t = ''[k]'' then Some SecK
          else if t = ''[i]'' then Some SecI
          else None)"

text \<open>Reading and assigning a field through a pointer: a nil pointer panics.\<close>

definition deref :: "nat option \<Rightarrow> asm_state \<Rightarrow> error + GoblinFunc" where
  "deref p s = (case p of
                  None \<Rightarrow> Inl NilDereference
                | Some a \<Rightarrow> if a < length (heap s) then Inr (heap s ! a) else Inl NilDereference)"

definition assign :: "nat option \<Rightarrow> (GoblinFunc \<Rightarrow> GoblinFunc) \<Rightarrow> asm_state \<Rightarrow> error + asm_state" where
  "assign p g s = (case p of
                  None \<Rightarrow> Inl NilDereference
                | Some a \<Rightarrow> if a < length (heap s)
                            then Inr (s\<lparr>heap := (heap s)[a := g (heap s ! a)]\<rparr>)
                            else Inl NilDereference)"

text \<open>\<open>ctx.Protos = append(ctx.Protos, p)\<close>.\<close>

definition add_proto :: "nat option \<Rightarrow> asm_state \<Rightarrow> asm_state" where
  "add_proto p s = s\<lparr>ctx := (ctx s)\<lparr>Protos := Protos (ctx s) @ [p]\<rparr>\<rparr>"

text \<open>The cases 0 to 6 of the \<open>switch i\<close> in the \<open>[f]\<close> handler, for the line \<open>l\<close>; the
  result is the value of \<open>i\<close> before \<open>i++\<close>.\<close>

definition header_line :: "asm_env \<Rightarrow> int \<Rightarrow> nat option \<Rightarrow> string \<Rightarrow> asm_state \<Rightarrow> error + int \<times> asm_state" where
  "header_line env i p l s =
     (if i = 0 then
        (if l = ''true''
         then map_sum id (Pair 2) (assign p (\<lambda>g. g\<lparr>IsNative := True\<rparr>) s)
         else map_sum id (Pair i) (assign p (\<lambda>g. g\<lparr>StackSz := Atoi env l\<rparr>) s))
      else if i = 1 then map_sum id (Pair i) (assign p (\<lambda>g. g\<lparr>ExpArgs := Atoi env l\<rparr>) s)
      else if i = 2 then map_sum id (Pair i) (assign p (\<lambda>g. g\<lparr>ExpVars := Atoi env l\<rparr>) s)
      else if i = 3 then
        (case assign p (\<lambda>g. g\<lparr>Name := l\<rparr>) s of
           Inl e \<Rightarrow> Inl e
         | Inr s' \<Rightarrow> (case deref p s' of
                       Inl e \<Rightarrow> Inl e
                     | Inr g \<Rightarrow> Inr (if IsNative g then 1000 else i, s')))
      else if i = 4 then map_sum id (Pair i) (assign p (\<lambda>g. g\<lparr>Dbg_File := l\<rparr>) s)
      else if i = 5 then map_sum id (Pair i) (assign p (\<lambda>g. g\<lparr>Dbg_LineStart := Atoi env l\<rparr>) s)
      else map_sum id (Pair i) (assign p (\<lambda>g. g\<lparr>Dbg_LineEnd := Atoi env l\<rparr>) s))"

text \<open>The \<open>switch line[0]\<close> of the \<open>[k]\<close> handler. In the case \<open>b\<close> the operands of
  \<open>append\<close> are evaluated from left to right: \<open>p.KTable\<close> before \<open>line[1]\<close>.\<close>

definition constant_line :: "asm_env \<Rightarrow> nat option \<Rightarrow> string \<Rightarrow> asm_state \<Rightarrow> error + asm_state" where
  "constant_line env p l s =
     (case l of
        [] \<Rightarrow> Inl IndexOutOfRange
      | c # rest \<Rightarrow>
          if c = CHR ''i'' then
            (case String_Int env rest of
               Inl e \<Rightarrow> Inl e
             | Inr i \<Rightarrow> assign p (\<lambda>g. g\<lparr>KTable := KTable g @ [KInt i]\<rparr>) s)
          else if c = CHR ''f'' then
            (case String_Float env rest of
               Inl e \<Rightarrow> Inl e
             | Inr x \<Rightarrow> assign p (\<lambda>g. g\<lparr>KTable := KTable g @ [KFloat x]\<rparr>) s)
          else if c = CHR ''s'' then assign p (\<lambda>g. g\<lparr>KTable := KTable g @ [KString rest]\<rparr>) s
          else if c = CHR ''b'' then
            (case deref p s of
               Inl e \<Rightarrow> Inl e
             | Inr _ \<Rightarrow> (case rest of
                           [] \<Rightarrow> Inl IndexOutOfRange
                         | d # _ \<Rightarrow> assign p (\<lambda>g. g\<lparr>KTable := KTable g @ [KBool (d = CHR ''1'')]\<rparr>) s))
          else if c = CHR ''n'' then assign p (\<lambda>g. g\<lparr>KTable := KTable g @ [KNil]\<rparr>) s
          else Inl (Panic ''invalid constant value type''))"

text \<open>The body of the \<open>[i]\<close> handler for a line that is not a header.\<close>

definition instruction_line :: "asm_env \<Rightarrow> nat option \<Rightarrow> string \<Rightarrow> asm_state \<Rightarrow> error + asm_state" where
  "instruction_line env p line s =
     (case Fields line of
        [] \<Rightarrow> Inl IndexOutOfRange
      | p0 # ps \<Rightarrow>
          (case NewOpcode env p0 of
             Inl e \<Rightarrow> Inl e
           | Inr opc \<Rightarrow>
               (case ps of
                  [] \<Rightarrow> assign p (\<lambda>g. g\<lparr>Code := Code g @ [(opc, 0, 0)]\<rparr>) s
                | p1 # ps' \<Rightarrow>
                    (case NewFlag env p1 of
                       Inl e \<Rightarrow> Inl e
                     | Inr flg \<Rightarrow>
                         (case ps' of
                            [] \<Rightarrow> Inl IndexOutOfRange
                          | p2 # _ \<Rightarrow>
                              assign p (\<lambda>g. g\<lparr>Code := Code g @ [(opc, flg, word_of_int (ParseInt env p2))]\<rparr>) s)))))"

text \<open>
  The scanning loops. The loop at the end of \<open>Compile\<close> and the loops of the \<open>[k]\<close> and
  \<open>[i]\<close> handlers look the trimmed line up in \<open>m\<close>; the top-level loop calls the handler
  with \<open>nil\<close>, the two handlers pass their \<open>p\<close> on and return when the handler they
  called returns. When the lines are exhausted, the code after the loop runs: the
  \<open>[f]\<close> handler tests \<open>p.IsNative\<close>, the \<open>[k]\<close> handler panics, the others return. A
  handler that returns hands the scanner back to the loop that called it. In the
  default case of the \<open>[f]\<close> handler, \<open>m[s.Text()]\<close> is looked up without trimming, and
  calling the nil function of an absent key panics.
\<close>

partial_function (option) scan :: "asm_env \<Rightarrow> mode \<Rightarrow> asm_state \<Rightarrow> (error + asm_state) option" where
  "scan env md s =
     (case lines s of
        [] \<Rightarrow>
          (case md of
             Top \<Rightarrow> Some (Inr s)
           | SecF i p \<Rightarrow>
               (case deref p s of
                  Inl e \<Rightarrow> Some (Inl e)
                | Inr g \<Rightarrow> Some (Inr (if IsNative g then add_proto p s else s)))
           | SecK p \<Rightarrow> Some (Inl (Panic ''missing instructions section [i]''))
           | SecI p \<Rightarrow> Some (Inr s))
      | l # ls \<Rightarrow>
          (case md of
             Top \<Rightarrow>
               (case m (TrimSpace l) of
                  Some h \<Rightarrow>
                    Option.bind (scan env (h None) (s\<lparr>lines := ls\<rparr>)) (\<lambda>r.
                      case r of Inl e \<Rightarrow> Some (Inl e) | Inr s' \<Rightarrow> scan env Top s')
                | None \<Rightarrow> scan env Top (s\<lparr>lines := ls\<rparr>))
           | SecF i p \<Rightarrow>
               (if 0 \<le> i \<and> i \<le> 6
                then (case header_line env i p l (s\<lparr>lines := ls\<rparr>) of
                        Inl e \<Rightarrow> Some (Inl e)
                      | Inr (i', s') \<Rightarrow> scan env (SecF (i' + 1) p) s')
                else (case m l of
                        None \<Rightarrow> Some (Inl NilDereference)
                      | Some h \<Rightarrow>
                          Option.bind (scan env (h p) (add_proto p (s\<lparr>lines := ls\<rparr>))) (\<lambda>r.
                            case r of Inl e \<Rightarrow> Some (Inl e) | Inr s' \<Rightarrow> scan env (SecF (i + 1) p) s')))
           | SecK p \<Rightarrow>
               (case m (TrimSpace l) of
                  Some h \<Rightarrow> scan env (h p) (s\<lparr>lines := ls\<rparr>)
                | None \<Rightarrow>
                    (case constant_line env p l (s\<lparr>lines := ls\<rparr>) of
                       Inl e \<Rightarrow> Some (Inl e)
                     | Inr s' \<Rightarrow> scan env (SecK p) s'))
           | SecI p \<Rightarrow>
               (case m (TrimSpace l) of
                  Some h \<Rightarrow> scan env (h p) (s\<lparr>lines := ls\<rparr>)
                | None \<Rightarrow>
                    (case instruction_line env p (TrimSpace l) (s\<lparr>lines := ls\<rparr>) of
                       Inl e \<Rightarrow> Some (Inl e)
                     | Inr s' \<Rightarrow> scan env (SecI p) s'))))"

text \<open>
  \<open>Compile\<close> makes a scanner for its reader \<open>r\<close>, allocates from \<open>id\<close> a module that it
  does not use, runs the top-level loop and returns \<open>ctx\<close>: the result is the value
  of \<open>ctx\<close> at the return together with the state left, or the panic. The Go compiler
  does not accept the file as it is written (besides the undeclared \<open>ctx\<close> and the two
  pointer types, \<open>mod\<close> is unused and the one value \<open>ctx\<close> is returned for the results
  \<open>(runtime.Module, error)\<close>); the model follows its statements.
\<close>

definition Compile :: "asm_env \<Rightarrow> string \<Rightarrow> string list \<Rightarrow> asm_state \<Rightarrow> (error + compile_ctx \<times> asm_state) option" where
  "Compile env ident r s =
     map_option (map_sum (\<lambda>e. e) (\<lambda>s'. (ctx s', s'))) (scan env Top (s\<lparr>lines := r\<rparr>))"

text \<open>The listing of a module with one function, which has one constant and two
  instructions.\<close>

definition listing :: "string list" where
  "listing = [''[f]'', ''2'', ''0'', ''0'', ''main'', ''main.agora'', ''1'', ''3'',
              ''[k]'', ''smain'', ''[i]'', ''PUSH K 0'', ''RET'']"

text \<open>What a run of a scanning loop that starts with a nil pointer may end with: the
  \<open>[f]\<close> handler with a panic, the other loops with a panic or with \<open>ctx\<close> and the
  function records as they were.\<close>

definition untouched :: "mode \<Rightarrow> asm_state \<Rightarrow> error + asm_state \<Rightarrow> bool" where
  "untouched md s y =
     (case md of
        SecF i p \<Rightarrow> p = None \<longrightarrow> (\<exists>e. y = Inl e)
      | SecK p \<Rightarrow> p = None \<longrightarrow> (\<forall>s'. y = Inr s' \<longrightarrow> ctx s' = ctx s \<and> heap s' = heap s)
      | SecI p \<Rightarrow> p = None \<longrightarrow> (\<forall>s'. y = Inr s' \<longrightarrow> ctx s' = ctx s \<and> heap s' = heap s)
      | Top \<Rightarrow> (\<forall>s'. y = Inr s' \<longrightarrow> ctx s' = ctx s \<and> heap s' = heap s))"

text \<open>A scanning loop returns, and leaves no more lines than it was given.\<close>

definition returns :: "asm_env \<Rightarrow> mode \<Rightarrow> asm_state \<Rightarrow> bool" where
  "returns env md s =
     (\<exists>y. scan env md s = Some y \<and> (\<forall>s'. y = Inr s' \<longrightarrow> length (lines s') \<le> length (lines s)))"

section \<open>Frames and collaborators for the examples\<close>

text \<open>
  \<open>newFuncVM\<close>: a fresh frame for a function value, with program counter 0, an empty
  operand stack (the capacity hint has no effect on the model), and an empty variable
  map; here together with an empty object heap. Go leaves \<open>this\<close> and \<open>args\<close> as
  the zero value of the interface; the model has Nil there.
\<close>

definition newMachine :: "agoraFuncVal \<Rightarrow> agoraFuncDef \<Rightarrow> bool \<Rightarrow> 'w \<Rightarrow> 'w machine" where
  "newMachine fv p dbg w =
     \<lparr>val = fv, proto = p, debug = dbg, pc = 0, stk = newValStack (stackSz p),
      rng = \<lparr>rng_st = [], rng_sp = 0\<rparr>, bkm = \<lparr>bkm_st = [], bkm_sp = 0\<rparr>,
      vars = Map.empty, this = Nil_val, args = Nil_val,
      objs = [], released = [], world = w\<rparr>"

text \<open>
  An environment for the examples: arithmetic is not available, a function value
  returns the list of its arguments, variables are looked up and set in the frame's
  own map, and every coroutine is exhausted at its first resume.
\<close>

definition example_env :: "unit env" where
  "example_env =
     \<lparr>Arith_Add = (\<lambda>x y f. (Inl (Panic ''arith''), f)),
      Arith_Sub = (\<lambda>x y f. (Inl (Panic ''arith''), f)),
      Arith_Mul = (\<lambda>x y f. (Inl (Panic ''arith''), f)),
      Arith_Div = (\<lambda>x y f. (Inl (Panic ''arith''), f)),
      Arith_Mod = (\<lambda>x y f. (Inl (Panic ''arith''), f)),
      Arith_Unm = (\<lambda>x f. (Inl (Panic ''arith''), f)),
      Cmp = (\<lambda>x y f. (Inr (if x = y then 0 else 1), f)),
      Val_Bool = (\<lambda>x f. (Inr (x \<noteq> Nil_val \<and> x \<noteq> Bool False), f)),
      Val_String = (\<lambda>x. case x of String s \<Rightarrow> s | _ \<Rightarrow> []),
      getVar = (\<lambda>n f. (Inr (vars f n), f)),
      setVar = (\<lambda>n v f. (Inr (n \<in> dom (vars f)), if n \<in> dom (vars f) then f\<lparr>vars := (vars f)(n \<mapsto> v)\<rparr> else f)),
      Func_Call = (\<lambda>fn t avs f. (Inr avs, f)),
      newAgoraFuncVal = (\<lambda>i f. (Inr (Func i), f)),
      newCoro = (\<lambda>avs f. (Inr 0, f)),
      Resume = (\<lambda>c f. (Inr (IOther, Some ErrEndOfCoro), f)),
      ctx_dump = (\<lambda>n f. (Inr (), f))\<rparr>"

definition empty_proto :: agoraFuncDef where
  "empty_proto = \<lparr>kTable = [], lTable = [], code = [], expArgs = 0, stackSz = 0, mod_fns = []\<rparr>"

definition bkme_frame :: "unit machine" where
  "bkme_frame = (newMachine \<lparr>coroState = nil_vm\<rparr> empty_proto False ())
     \<lparr>stk := \<lparr>st = [Number 7, Number 8, Number 9], sp = 3\<rparr>, bkm := \<lparr>bkm_st = [1], bkm_sp = 1\<rparr>\<rparr>"

text \<open>
  Frames for the examples. \<open>yld_frame\<close> runs \<open>PUSH nil; YLD; CALL 0; RET\<close> and holds
  two range-coroutine handles; \<open>suspended_frame\<close> is that frame as its YLD leaves it.
\<close>

definition yld_frame :: "unit machine" where
  "yld_frame = (newMachine \<lparr>coroState = nil_vm\<rparr>
        (empty_proto\<lparr>code := [Instr OP_PUSH FLG_N 0, Instr OP_YLD FLG_other 0,
                               Instr OP_CALL FLG_other 0, Instr OP_RET FLG_other 0]\<rparr>) False ())
     \<lparr>rng := \<lparr>rng_st = [5, 3], rng_sp = 2\<rparr>\<rparr>"

definition suspended_frame :: "unit machine" where
  "suspended_frame =
     yld_frame\<lparr>pc := 2, val := \<lparr>coroState = this_vm\<rparr>, stk := \<lparr>st = [Nil_val], sp = 0\<rparr>\<rparr>"

definition ret_frame :: "unit machine" where
  "ret_frame = (newMachine \<lparr>coroState = nil_vm\<rparr>
        (empty_proto\<lparr>code := [Instr OP_PUSH FLG_N 0, Instr OP_RET FLG_other 0]\<rparr>) False ())
     \<lparr>rng := \<lparr>rng_st = [5, 3], rng_sp = 2\<rparr>\<rparr>"

definition underflow_frame :: "unit machine" where
  "underflow_frame = (newMachine \<lparr>coroState = nil_vm\<rparr>
        (empty_proto\<lparr>code := [Instr OP_YLD FLG_other 0]\<rparr>) False ())
     \<lparr>rng := \<lparr>rng_st = [5, 3], rng_sp = 2\<rparr>\<rparr>"

definition at_yld_frame :: "unit machine" where
  "at_yld_frame = (newMachine \<lparr>coroState = nil_vm\<rparr>
        (empty_proto\<lparr>code := [Instr OP_PUSH FLG_N 0, Instr OP_YLD FLG_other 0,
                               Instr OP_RET FLG_other 0]\<rparr>) False ())
     \<lparr>pc := 1, stk := \<lparr>st = [Number 7, Number 8], sp = 2\<rparr>, vars := [''x'' \<mapsto> Number 3]\<rparr>"

text \<open>Frames for the instruction examples: an operand stack given from bottom to top,
  and for \<open>new_frame\<close> a heap that holds one (empty) object.\<close>

definition rngp_frame :: "unit machine" where
  "rngp_frame = (newMachine \<lparr>coroState = nil_vm\<rparr> empty_proto False ())
     \<lparr>stk := \<lparr>st = [Number 7], sp = 1\<rparr>, rng := \<lparr>rng_st = [5, 3], rng_sp = 2\<rparr>\<rparr>"

definition new_frame :: "Val list \<Rightarrow> unit machine" where
  "new_frame vs = (newMachine \<lparr>coroState = nil_vm\<rparr> empty_proto False ())
     \<lparr>stk := \<lparr>st = vs, sp = int (length vs)\<rparr>, objs := [Map.empty]\<rparr>"

definition call_frame :: "Val list \<Rightarrow> unit machine" where
  "call_frame vs = (newMachine \<lparr>coroState = nil_vm\<rparr> empty_proto False ())
     \<lparr>stk := \<lparr>st = vs, sp = int (length vs)\<rparr>\<rparr>"

text \<open>A fresh frame for a prototype that expects the two arguments \<open>a\<close> and \<open>b\<close>.\<close>

definition two_args_frame :: "unit machine" where
  "two_args_frame = newMachine \<lparr>coroState = nil_vm\<rparr>
        (empty_proto\<lparr>kTable := [String ''a'', String ''b''], lTable := [''a'', ''b''],
                     expArgs := 2, code := [Instr OP_PUSH FLG_N 0, Instr OP_RET FLG_other 0]\<rparr>) False ()"

section \<open>Properties of the operand stack\<close>

text \<open>
  Claim C8. On an operand stack that holds at least one value (\<open>0 < sp \<le> len(st)\<close>),
  \<open>pop\<close> succeeds, retreats the stack pointer by one, returns the value stored at
  the new pointer and leaves \<open>Nil\<close> in that slot; every other slot and the length of
  the backing slice are unchanged.
\<close>

theorem pop_returns_top_and_clears_slot:
  assumes "0 < sp vs" and "sp vs \<le> int (length (st vs))"
  shows "fst (pop vs) = Inr (st vs ! nat (sp vs - 1))
       \<and> sp (snd (pop vs)) = sp vs - 1
       \<and> st (snd (pop vs)) ! nat (sp vs - 1) = Nil_val
       \<and> length (st (snd (pop vs))) = length (st vs)
       \<and> (\<forall>i < length (st vs). i \<noteq> nat (sp vs - 1) \<longrightarrow> st (snd (pop vs)) ! i = st vs ! i)"
  using assms by (auto simp: pop_def Let_def)

theorem pop_returns_top_and_clears_slot_witness:
  "fst (pop \<lparr>st = [Number 1, String ''a''], sp = 2\<rparr>) = Inr (String ''a'')
   \<and> snd (pop \<lparr>st = [Number 1, String ''a''], sp = 2\<rparr>) = \<lparr>st = [Number 1, Nil_val], sp = 1\<rparr>"
  using pop_returns_top_and_clears_slot [of "\<lparr>st = [Number 1, String ''a''], sp = 2\<rparr>"]
  by (simp add: pop_def Let_def)

section \<open>Properties of the bookmark instructions\<close>

lemma uint_got_of:
  "0 \<le> sp (stk f) - b \<Longrightarrow> sp (stk f) - b < 2 ^ 64 \<Longrightarrow> uint (got_of b f) = sp (stk f) - b"
  unfolding got_of_def by (subst uint_word_of_int) simp

lemma stk_push_wf:
  assumes "0 \<le> sp (stk f)" "sp (stk f) \<le> int (length (st (stk f)))"
  shows "stk_push v f =
           (Inr (), f\<lparr>stk := \<lparr>st = (if sp (stk f) = int (length (st (stk f)))
                                   then st (stk f) @ [v]
                                   else (st (stk f))[nat (sp (stk f)) := v]),
                            sp = sp (stk f) + 1\<rparr>\<rparr>)"
  using assms by (auto simp: stk_push_def push_def)

lemma stk_pop_wf:
  assumes "0 < sp (stk f)" "sp (stk f) \<le> int (length (st (stk f)))"
  shows "stk_pop f =
           (Inr (st (stk f) ! nat (sp (stk f) - 1)),
            f\<lparr>stk := \<lparr>st = (st (stk f))[nat (sp (stk f) - 1) := Nil_val], sp = sp (stk f) - 1\<rparr>\<rparr>)"
  using assms by (auto simp: stk_pop_def pop_def Let_def)

lemma bkmeLoop_pad:
  "n = nat (b + uint ix - sp (stk f)) \<Longrightarrow> 0 \<le> b \<Longrightarrow> b \<le> sp (stk f) \<Longrightarrow> sp (stk f) \<le> b + uint ix \<Longrightarrow>
   sp (stk f) \<le> int (length (st (stk f))) \<Longrightarrow>
   \<exists>s'. bkmeLoop b ix f = (Inr (), f\<lparr>stk := \<lparr>st = s', sp = b + uint ix\<rparr>\<rparr>)
      \<and> length s' = max (length (st (stk f))) (nat (b + uint ix))
      \<and> (\<forall>i < length s'. s' ! i = (if sp (stk f) \<le> int i \<and> int i < b + uint ix then Nil_val else st (stk f) ! i))"
proof (induction n arbitrary: f)
  case 0
  then have eq: "sp (stk f) = b + uint ix" by simp
  then have "got_of b f = ix" by (simp add: got_of_def)
  then have "bkmeLoop b ix f = (Inr (), f)" by (subst bkmeLoop.simps) simp
  moreover have "f = f\<lparr>stk := \<lparr>st = st (stk f), sp = b + uint ix\<rparr>\<rparr>" using eq by simp
  ultimately have "bkmeLoop b ix f = (Inr (), f\<lparr>stk := \<lparr>st = st (stk f), sp = b + uint ix\<rparr>\<rparr>)"
    by simp
  moreover have "length (st (stk f)) = max (length (st (stk f))) (nat (b + uint ix))"
    using eq 0 by arith
  moreover have "\<forall>i < length (st (stk f)). st (stk f) ! i =
        (if sp (stk f) \<le> int i \<and> int i < b + uint ix then Nil_val else st (stk f) ! i)"
    using eq by auto
  ultimately show ?case by blast
next
  case (Suc n)
  let ?s = "sp (stk f)"
  from Suc.prems have lt: "?s < b + uint ix" by linarith
  have ub: "uint ix < 2 ^ 64" using uint_bounded [of ix] by simp
  have ug: "uint (got_of b f) = ?s - b" using Suc.prems lt ub by (intro uint_got_of) auto
  have ne: "got_of b f \<noteq> ix" using ug lt by auto
  have less: "got_of b f < ix" using ug lt by (simp add: word_less_def)
  define f1 where "f1 = f\<lparr>stk := \<lparr>st = (if ?s = int (length (st (stk f)))
                                   then st (stk f) @ [Nil_val]
                                   else (st (stk f))[nat ?s := Nil_val]), sp = ?s + 1\<rparr>\<rparr>"
  have p: "stk_push Nil_val f = (Inr (), f1)"
    unfolding f1_def using Suc.prems by (intro stk_push_wf) auto
  have step: "bkmeLoop b ix f = bkmeLoop b ix f1"
    using ne less p by (subst bkmeLoop.simps) simp
  have "\<exists>s'. bkmeLoop b ix f1 = (Inr (), f1\<lparr>stk := \<lparr>st = s', sp = b + uint ix\<rparr>\<rparr>)
      \<and> length s' = max (length (st (stk f1))) (nat (b + uint ix))
      \<and> (\<forall>i < length s'. s' ! i = (if sp (stk f1) \<le> int i \<and> int i < b + uint ix then Nil_val else st (stk f1) ! i))"
    using Suc.prems lt by (intro Suc.IH) (auto simp: f1_def)
  then obtain s' where r: "bkmeLoop b ix f1 = (Inr (), f1\<lparr>stk := \<lparr>st = s', sp = b + uint ix\<rparr>\<rparr>)"
    and l: "length s' = max (length (st (stk f1))) (nat (b + uint ix))"
    and c: "\<forall>i < length s'. s' ! i = (if sp (stk f1) \<le> int i \<and> int i < b + uint ix then Nil_val else st (stk f1) ! i)"
    by blast
  have "f1\<lparr>stk := \<lparr>st = s', sp = b + uint ix\<rparr>\<rparr> = f\<lparr>stk := \<lparr>st = s', sp = b + uint ix\<rparr>\<rparr>"
    by (simp add: f1_def)
  moreover have l': "length s' = max (length (st (stk f))) (nat (b + uint ix))"
    using l lt Suc.prems by (auto simp: f1_def max_def)
  moreover have "\<forall>i < length s'. s' ! i = (if ?s \<le> int i \<and> int i < b + uint ix then Nil_val else st (stk f) ! i)"
  proof (intro allI impI)
    fix i assume i: "i < length s'"
    show "s' ! i = (if ?s \<le> int i \<and> int i < b + uint ix then Nil_val else st (stk f) ! i)"
      using c [rule_format, OF i] Suc.prems lt i l'
      by (auto simp: f1_def nth_append nth_list_update max_def split: if_splits)
  qed
  ultimately show ?case using step r by auto
qed


lemma bkmeLoop_drop:
  "n = nat (sp (stk f) - (b + uint ix)) \<Longrightarrow> 0 \<le> b \<Longrightarrow> b + uint ix \<le> sp (stk f) \<Longrightarrow>
   sp (stk f) \<le> int (length (st (stk f))) \<Longrightarrow> sp (stk f) - b < 2 ^ 64 \<Longrightarrow>
   \<exists>s'. bkmeLoop b ix f = (Inr (), f\<lparr>stk := \<lparr>st = s', sp = b + uint ix\<rparr>\<rparr>)
      \<and> length s' = length (st (stk f))
      \<and> (\<forall>i < length s'. s' ! i = (if b + uint ix \<le> int i \<and> int i < sp (stk f) then Nil_val else st (stk f) ! i))"
proof (induction n arbitrary: f)
  case 0
  then have eq: "sp (stk f) = b + uint ix" by simp
  then have "got_of b f = ix" by (simp add: got_of_def)
  then have "bkmeLoop b ix f = (Inr (), f)" by (subst bkmeLoop.simps) simp
  moreover have "f = f\<lparr>stk := \<lparr>st = st (stk f), sp = b + uint ix\<rparr>\<rparr>" using eq by simp
  ultimately have "bkmeLoop b ix f = (Inr (), f\<lparr>stk := \<lparr>st = st (stk f), sp = b + uint ix\<rparr>\<rparr>)"
    by simp
  moreover have "\<forall>i < length (st (stk f)). st (stk f) ! i =
        (if b + uint ix \<le> int i \<and> int i < sp (stk f) then Nil_val else st (stk f) ! i)"
    using eq by auto
  ultimately show ?case by blast
next
  case (Suc n)
  let ?s = "sp (stk f)"
  from Suc.prems have gt: "b + uint ix < ?s" by linarith
  have bs: "b < ?s" using gt uint_ge_0 [of ix] by linarith
  have ug: "uint (got_of b f) = ?s - b" using Suc.prems bs by (intro uint_got_of) auto
  have ne: "got_of b f \<noteq> ix" using ug gt by auto
  have nless: "\<not> got_of b f < ix" using ug gt by (simp add: word_less_def)
  define f1 where "f1 = f\<lparr>stk := \<lparr>st = (st (stk f))[nat (?s - 1) := Nil_val], sp = ?s - 1\<rparr>\<rparr>"
  have p: "stk_pop f = (Inr (st (stk f) ! nat (?s - 1)), f1)"
    unfolding f1_def using Suc.prems bs by (intro stk_pop_wf) auto
  have step: "bkmeLoop b ix f = bkmeLoop b ix f1"
    using ne nless p by (subst bkmeLoop.simps) simp
  have "\<exists>s'. bkmeLoop b ix f1 = (Inr (), f1\<lparr>stk := \<lparr>st = s', sp = b + uint ix\<rparr>\<rparr>)
      \<and> length s' = length (st (stk f1))
      \<and> (\<forall>i < length s'. s' ! i = (if b + uint ix \<le> int i \<and> int i < sp (stk f1) then Nil_val else st (stk f1) ! i))"
    using Suc.prems gt bs by (intro Suc.IH) (auto simp: f1_def)
  then obtain s' where r: "bkmeLoop b ix f1 = (Inr (), f1\<lparr>stk := \<lparr>st = s', sp = b + uint ix\<rparr>\<rparr>)"
    and l: "length s' = length (st (stk f1))"
    and c: "\<forall>i < length s'. s' ! i = (if b + uint ix \<le> int i \<and> int i < sp (stk f1) then Nil_val else st (stk f1) ! i)"
    by blast
  have "f1\<lparr>stk := \<lparr>st = s', sp = b + uint ix\<rparr>\<rparr> = f\<lparr>stk := \<lparr>st = s', sp = b + uint ix\<rparr>\<rparr>"
    by (simp add: f1_def)
  moreover have l': "length s' = length (st (stk f))"
    using l by (simp add: f1_def)
  moreover have "\<forall>i < length s'. s' ! i = (if b + uint ix \<le> int i \<and> int i < ?s then Nil_val else st (stk f) ! i)"
  proof (intro allI impI)
    fix i assume i: "i < length s'"
    show "s' ! i = (if b + uint ix \<le> int i \<and> int i < ?s then Nil_val else st (stk f) ! i)"
      using c [rule_format, OF i] Suc.prems gt i l' bs
      by (auto simp: f1_def nth_list_update split: if_splits)
  qed
  ultimately show ?case using step r by auto
qed

lemma bkmeLoop_exact:
  assumes "0 \<le> b" "b \<le> sp (stk f)" "sp (stk f) \<le> int (length (st (stk f)))" "sp (stk f) - b < 2 ^ 64"
  shows "\<exists>s'. bkmeLoop b ix f = (Inr (), f\<lparr>stk := \<lparr>st = s', sp = b + uint ix\<rparr>\<rparr>)
      \<and> (\<forall>i. int i < sp (stk f) \<and> int i < b + uint ix \<longrightarrow> s' ! i = st (stk f) ! i)
      \<and> (\<forall>i. sp (stk f) \<le> int i \<and> int i < b + uint ix \<longrightarrow> s' ! i = Nil_val)"
proof (cases "sp (stk f) \<le> b + uint ix")
  case True
  from bkmeLoop_pad [OF refl assms(1,2) True assms(3)]
  obtain s' where r: "bkmeLoop b ix f = (Inr (), f\<lparr>stk := \<lparr>st = s', sp = b + uint ix\<rparr>\<rparr>)"
    and l: "length s' = max (length (st (stk f))) (nat (b + uint ix))"
    and c: "\<forall>i < length s'. s' ! i = (if sp (stk f) \<le> int i \<and> int i < b + uint ix then Nil_val else st (stk f) ! i)"
    by blast
  have "\<forall>i. int i < sp (stk f) \<and> int i < b + uint ix \<longrightarrow> s' ! i = st (stk f) ! i"
    using c l by auto
  moreover have "\<forall>i. sp (stk f) \<le> int i \<and> int i < b + uint ix \<longrightarrow> s' ! i = Nil_val"
    using c l by auto
  ultimately show ?thesis using r by blast
next
  case False
  then have ge: "b + uint ix \<le> sp (stk f)" by simp
  from bkmeLoop_drop [OF refl assms(1) ge assms(3,4)]
  obtain s' where r: "bkmeLoop b ix f = (Inr (), f\<lparr>stk := \<lparr>st = s', sp = b + uint ix\<rparr>\<rparr>)"
    and l: "length s' = length (st (stk f))"
    and c: "\<forall>i < length s'. s' ! i = (if b + uint ix \<le> int i \<and> int i < sp (stk f) then Nil_val else st (stk f) ! i)"
    by blast
  have "\<forall>i. int i < sp (stk f) \<and> int i < b + uint ix \<longrightarrow> s' ! i = st (stk f) ! i"
    using c l assms(3) by auto
  moreover have "\<forall>i. sp (stk f) \<le> int i \<and> int i < b + uint ix \<longrightarrow> s' ! i = Nil_val"
    using False by auto
  ultimately show ?thesis using r by blast
qed

text \<open>
  Claim C3. Let \<open>b\<close> be the depth on top of the bookmark stack, as \<open>OP_BKMS\<close> recorded
  it (\<open>0 \<le> b\<close>), and let the operand stack be well formed with a depth of at least
  \<open>b\<close> (a Go int, so below \<open>2^63\<close>). Then \<open>OP_BKME\<close> with index \<open>ix\<close> ends normally,
  removes the bookmark, and leaves the operand stack at exactly \<open>b + ix\<close> values:
  the values below both the old and the new depth are kept, and every slot from the
  old depth up to the new one holds Nil.
\<close>

theorem bkme_leaves_bookmark_plus_ix:
  assumes "0 < bkm_sp (bkm f)" and "bkm_sp (bkm f) \<le> int (length (bkm_st (bkm f)))"
      and "bkm_st (bkm f) ! nat (bkm_sp (bkm f) - 1) = b"
      and "0 \<le> b" and "b \<le> sp (stk f)" and "sp (stk f) \<le> int (length (st (stk f)))"
      and "sp (stk f) < 2 ^ 63"
  shows "\<exists>s'. exec env OP_BKME flg ix f =
           (Inr Continue, True,
            f\<lparr>bkm := (bkm f)\<lparr>bkm_sp := bkm_sp (bkm f) - 1\<rparr>, stk := \<lparr>st = s', sp = b + uint ix\<rparr>\<rparr>)
      \<and> (\<forall>i. int i < sp (stk f) \<and> int i < b + uint ix \<longrightarrow> s' ! i = st (stk f) ! i)
      \<and> (\<forall>i. sp (stk f) \<le> int i \<and> int i < b + uint ix \<longrightarrow> s' ! i = Nil_val)"
proof -
  let ?g = "f\<lparr>bkm := (bkm f)\<lparr>bkm_sp := bkm_sp (bkm f) - 1\<rparr>\<rparr>"
  have bp: "bkm_pop (bkm f) = (Inr b, (bkm f)\<lparr>bkm_sp := bkm_sp (bkm f) - 1\<rparr>)"
    using assms(1-3) by (simp add: bkm_pop_def Let_def)
  have rng: "sp (stk ?g) - b < 2 ^ 64" using assms(4,7) by simp
  from bkmeLoop_exact [of b ?g ix] assms(4-6) rng
  obtain s' where r: "bkmeLoop b ix ?g = (Inr (), ?g\<lparr>stk := \<lparr>st = s', sp = b + uint ix\<rparr>\<rparr>)"
    and c1: "\<forall>i. int i < sp (stk f) \<and> int i < b + uint ix \<longrightarrow> s' ! i = st (stk f) ! i"
    and c2: "\<forall>i. sp (stk f) \<le> int i \<and> int i < b + uint ix \<longrightarrow> s' ! i = Nil_val"
    by auto
  have "exec env OP_BKME flg ix f = (Inr Continue, True, ?g\<lparr>stk := \<lparr>st = s', sp = b + uint ix\<rparr>\<rparr>)"
    using bp r by (simp add: andThen_def cont_def)
  with c1 c2 show ?thesis by blast
qed

theorem bkme_leaves_bookmark_plus_ix_witness:
  "sp (stk (snd (snd (exec example_env OP_BKME FLG_other 4 bkme_frame)))) = 5
   \<and> st (stk (snd (snd (exec example_env OP_BKME FLG_other 4 bkme_frame)))) ! 0 = Number 7
   \<and> st (stk (snd (snd (exec example_env OP_BKME FLG_other 4 bkme_frame)))) ! 2 = Number 9
   \<and> st (stk (snd (snd (exec example_env OP_BKME FLG_other 4 bkme_frame)))) ! 3 = Nil_val
   \<and> st (stk (snd (snd (exec example_env OP_BKME FLG_other 4 bkme_frame)))) ! 4 = Nil_val
   \<and> sp (stk (snd (snd (exec example_env OP_BKME FLG_other 1 bkme_frame)))) = 2
   \<and> st (stk (snd (snd (exec example_env OP_BKME FLG_other 1 bkme_frame)))) ! 1 = Number 8"
proof -
  have h: "0 < bkm_sp (bkm bkme_frame)" "bkm_sp (bkm bkme_frame) \<le> int (length (bkm_st (bkm bkme_frame)))"
    "bkm_st (bkm bkme_frame) ! nat (bkm_sp (bkm bkme_frame) - 1) = 1"
    "0 \<le> (1::int)" "1 \<le> sp (stk bkme_frame)" "sp (stk bkme_frame) \<le> int (length (st (stk bkme_frame)))"
    "sp (stk bkme_frame) < 2 ^ 63"
    by (simp_all add: bkme_frame_def newMachine_def)
  from bkme_leaves_bookmark_plus_ix [OF h, of example_env FLG_other 4]
       bkme_leaves_bookmark_plus_ix [OF h, of example_env FLG_other 1]
  show ?thesis by (auto simp: bkme_frame_def newMachine_def)
qed

section \<open>Properties of running a frame\<close>

lemma cont_result:
  "cont x = (r, cr, g') \<Longrightarrow> cr \<and> (r = Inr Continue \<or> (\<exists>e. r = Inl e))"
  by (auto simp: cont_def split: prod.splits sum.splits)

lemma stk_pop_other:
  "stk_pop g = (r, g') \<Longrightarrow> val g' = val g \<and> rng g' = rng g \<and> released g' = released g"
  by (auto simp: stk_pop_def split: prod.splits)

lemma exec_exit:
  assumes "exec env op flg ix g = (r, cr, g')"
  shows "(\<forall>vs. r = Inr (Returned vs) \<longrightarrow> op = OP_RET \<and> cr \<and> coroState (val g') = nil_vm)
       \<and> (\<forall>vs. r = Inr (Yielded vs) \<longrightarrow> op = OP_YLD \<and> \<not> cr \<and> coroState (val g') = this_vm
               \<and> rng g' = rng g \<and> released g' = released g)
       \<and> (\<not> cr \<longrightarrow> op = OP_YLD)"
proof (cases op)
  case OP_RET
  with assms show ?thesis
    by (auto split: prod.splits sum.splits dest!: stk_pop_other)
next
  case OP_YLD
  with assms show ?thesis
    by (auto split: prod.splits sum.splits dest!: stk_pop_other)
qed (use assms in \<open>auto dest!: cont_result\<close>)


lemma loop_stop:
  "step env f = (r, cr, f') \<Longrightarrow> r \<noteq> Inr Continue \<Longrightarrow> loop env f = Some (r, cr, f')"
  by (subst loop.simps) (auto split: sum.splits ctl.splits)

lemma loop_continue:
  "step env f = (Inr Continue, cr, f') \<Longrightarrow> loop env f = loop env f'"
  by (subst loop.simps) simp

lemma bindArgs_done: "\<not> j < expArgs (proto f) \<Longrightarrow> bindArgs env avs j f = (Inr (), f)"
  by (subst bindArgs.simps) simp

lemma step_exit:
  assumes "step env g = (r, cr, g')"
  shows "(\<forall>vs. r = Inr (Returned vs) \<longrightarrow> cr \<and> coroState (val g') = nil_vm)
       \<and> (\<forall>vs. r = Inr (Yielded vs) \<longrightarrow> \<not> cr \<and> coroState (val g') = this_vm
               \<and> rng g' = rng g \<and> released g' = released g)
       \<and> (\<not> cr \<longrightarrow> Opcode (code (proto g) ! nat (pc g)) = OP_YLD)"
proof (cases "0 \<le> pc g \<and> pc g < int (length (code (proto g)))")
  case True
  with assms have "exec env (Opcode (code (proto g) ! nat (pc g))) (Flag (code (proto g) ! nat (pc g)))
      (Index (code (proto g) ! nat (pc g))) (g\<lparr>pc := pc g + 1\<rparr>) = (r, cr, g')"
    by (simp add: step_def Let_def)
  from exec_exit [OF this] show ?thesis by simp
next
  case False
  with assms show ?thesis by (auto simp: step_def)
qed

lemma loop_last_gen:
  assumes "loop env f = Some y"
  shows "\<exists>g. last_frame env f = Some g \<and> step env g = y \<and> fst y \<noteq> Inr Continue"
proof (rule loop.raw_induct [where P = "\<lambda>env f y. \<exists>g. last_frame env f = Some g \<and> step env g = y \<and> fst y \<noteq> Inr Continue", OF _ assms])
  fix lp :: "'a env \<Rightarrow> 'a machine \<Rightarrow> ((error + ctl) \<times> bool \<times> 'a machine) option"
  fix e g z
  assume IH: "\<And>f b y. lp f b = Some y \<Longrightarrow> \<exists>g. last_frame f b = Some g \<and> step f g = y \<and> fst y \<noteq> Inr Continue"
  assume eq: "(case step e g of
                 (Inl aa, cr, f') \<Rightarrow> Some (Inl aa, cr, f')
               | (Inr Continue, cr, f') \<Rightarrow> lp e f'
               | (Inr (Returned list), cr, f') \<Rightarrow> Some (Inr (Returned list), cr, f')
               | (Inr (Yielded list), cr, f') \<Rightarrow> Some (Inr (Yielded list), cr, f')) = Some z"
  obtain r0 cr0 f0 where fields: "step e g = (r0, cr0, f0)" by (cases "step e g") auto
  show "\<exists>g'. last_frame e g = Some g' \<and> step e g' = z \<and> fst z \<noteq> Inr Continue"
  proof (cases "r0 = Inr Continue")
    case True
    with eq fields have "lp e f0 = Some z" by simp
    from IH [OF this] obtain g' where "last_frame e f0 = Some g'" "step e g' = z" "fst z \<noteq> Inr Continue"
      by blast
    moreover have "last_frame e g = last_frame e f0"
      using fields True by (subst last_frame.simps) simp
    ultimately show ?thesis by auto
  next
    case False
    with eq fields have z: "z = (r0, cr0, f0)"
      by (auto split: sum.splits ctl.splits)
    have "step e g = z" by (simp only: fields z)
    moreover have "fst z \<noteq> Inr Continue" using False by (simp add: z)
    moreover have "last_frame e g = Some g"
      using fields False by (subst last_frame.simps) (auto split: sum.splits ctl.splits)
    ultimately show ?thesis by blast
  qed
qed

lemma loop_last:
  "loop env f = Some (r, cr, f') \<Longrightarrow>
   \<exists>g. last_frame env f = Some g \<and> step env g = (r, cr, f') \<and> r \<noteq> Inr Continue"
  using loop_last_gen [of env f "(r, cr, f')"] by simp

lemma last_frame_loop_gen:
  assumes "last_frame env f1 = Some g"
  shows "loop env f1 = Some (step env g) \<and> fst (step env g) \<noteq> Inr Continue"
proof (rule last_frame.raw_induct [where P = "\<lambda>env f1 g. loop env f1 = Some (step env g) \<and> fst (step env g) \<noteq> Inr Continue", OF _ assms])
  fix lf :: "'a env \<Rightarrow> 'a machine \<Rightarrow> 'a machine option"
  fix e h z
  assume IH: "\<And>f b y. lf f b = Some y \<Longrightarrow> loop f b = Some (step f y) \<and> fst (step f y) \<noteq> Inr Continue"
  assume eq: "(case step e h of
                 (Inl aa, cr, f') \<Rightarrow> Some h
               | (Inr Continue, cr, f') \<Rightarrow> lf e f'
               | (Inr (Returned list), cr, f') \<Rightarrow> Some h
               | (Inr (Yielded list), cr, f') \<Rightarrow> Some h) = Some z"
  obtain r0 cr0 f0 where fields: "step e h = (r0, cr0, f0)" by (cases "step e h") auto
  show "loop e h = Some (step e z) \<and> fst (step e z) \<noteq> Inr Continue"
  proof (cases "r0 = Inr Continue")
    case True
    with eq fields have "lf e f0 = Some z" by simp
    from IH [OF this] have "loop e f0 = Some (step e z)" "fst (step e z) \<noteq> Inr Continue" by simp_all
    moreover have "loop e h = loop e f0" using fields True by (simp add: loop_continue)
    ultimately show ?thesis by simp
  next
    case False
    with eq fields have z: "z = h" by (auto split: sum.splits ctl.splits)
    have "loop e h = Some (r0, cr0, f0)" using fields False by (rule loop_stop)
    with fields False z show ?thesis by simp
  qed
qed

lemma exec_ret_keeps:
  assumes "exec env op flg ix g = (Inr (Returned vs), cr, g')"
  shows "rng g' = rng g \<and> released g' = released g"
proof (cases op)
  case OP_RET
  with assms show ?thesis
    by (auto split: prod.splits sum.splits dest!: stk_pop_other)
next
  case OP_YLD
  with assms show ?thesis
    by (auto split: prod.splits sum.splits)
qed (use assms in \<open>auto dest!: cont_result\<close>)

lemma step_ret_keeps:
  assumes "step env g = (Inr (Returned vs), cr, g')"
  shows "rng g' = rng g \<and> released g' = released g"
proof (cases "0 \<le> pc g \<and> pc g < int (length (code (proto g)))")
  case True
  with assms have "exec env (Opcode (code (proto g) ! nat (pc g))) (Flag (code (proto g) ! nat (pc g)))
      (Index (code (proto g) ! nat (pc g))) (g\<lparr>pc := pc g + 1\<rparr>) = (Inr (Returned vs), cr, g')"
    by (simp add: step_def Let_def)
  from exec_ret_keeps [OF this] show ?thesis by simp
next
  case False
  with assms show ?thesis by (auto simp: step_def)
qed

lemma step_flag:
  assumes "step env g = (r, cr, g')"
  shows "cr = (\<not> at_yld g)"
proof (cases "at_yld g")
  case True
  with assms show ?thesis
    by (auto simp: step_def at_yld_def Let_def split: prod.splits sum.splits)
next
  case False
  from step_exit [OF assms] have "\<not> cr \<longrightarrow> Opcode (code (proto g) ! nat (pc g)) = OP_YLD" by simp
  moreover from assms have "\<not> (0 \<le> pc g \<and> pc g < int (length (code (proto g)))) \<longrightarrow> cr"
    by (auto simp: step_def)
  ultimately show ?thesis using False by (auto simp: at_yld_def)
qed

lemma rng_clear_held: "rng_held (rng (rng_clear g)) = []"
  by (simp add: rng_clear_def rng_held_def)

lemma rng_clear_released: "released (rng_clear g) = released g @ rev (rng_held (rng g))"
  by (simp add: rng_clear_def)

lemma rng_clear_val: "val (rng_clear g) = val g"
  by (simp add: rng_clear_def)

text \<open>
  Claim C2, as amended. Whenever \<open>run\<close> terminates, let \<open>g0\<close> be the frame on which
  the last iteration of the dispatch loop ran. After a return by RET, the result is
  \<open>rng_clear\<close> of the frame as the RET left it: the frame holds no handle, the handles
  that \<open>g0\<close> held have been appended to the released ones, and the saved suspended
  state is \<open>nil\<close>. After a YLD, the result is the frame as the YLD instruction left it:
  it holds the handles that \<open>g0\<close> held, none was released, and the function value
  points to the live frame. After a fatal failure raised before the dispatch loop, or
  by an iteration of the loop that was not at a YLD instruction, the result is
  \<open>rng_clear\<close> of the frame at the panic: every handle it held has been released. The
  remaining case is a failure of the pop of a YLD, raised after \<open>clearRange\<close> was set to
  false: the frame is left as it was at the panic. \<open>rng_clear\<close> leaves no handle held
  and appends the handles held to the released ones.
\<close>

theorem run_teardown:
  assumes "run env f avs = Some (r, f')"
  shows "(\<forall>vs. r = Inr (Returned vs) \<longrightarrow>
            (\<exists>f1 g0 g. enter env avs f = (Inr (), f1) \<and> last_frame env f1 = Some g0
                 \<and> step env g0 = (r, True, g) \<and> rng g = rng g0 \<and> released g = released g0
                 \<and> f' = rng_clear g
                 \<and> released f' = released g0 @ rev (rng_held (rng g0)))
            \<and> rng_held (rng f') = [] \<and> coroState (val f') = nil_vm)
       \<and> (\<forall>vs. r = Inr (Yielded vs) \<longrightarrow>
            (\<exists>f1 g0. enter env avs f = (Inr (), f1) \<and> last_frame env f1 = Some g0 \<and> at_yld g0
                 \<and> step env g0 = (r, False, f') \<and> rng f' = rng g0 \<and> released f' = released g0)
            \<and> coroState (val f') = this_vm)
       \<and> (\<forall>e. r = Inl e \<longrightarrow>
            (\<exists>f1. enter env avs f = (Inl e, f1) \<and> f' = rng_clear f1
                 \<and> released f' = released f1 @ rev (rng_held (rng f1)) \<and> rng_held (rng f') = [])
            \<or> (\<exists>f1 g g'. enter env avs f = (Inr (), f1) \<and> last_frame env f1 = Some g \<and> \<not> at_yld g
                   \<and> step env g = (Inl e, True, g') \<and> f' = rng_clear g'
                   \<and> released f' = released g' @ rev (rng_held (rng g')) \<and> rng_held (rng f') = [])
            \<or> (\<exists>f1 g. enter env avs f = (Inr (), f1) \<and> last_frame env f1 = Some g \<and> at_yld g
                   \<and> step env g = (Inl e, False, f')))
       \<and> (\<forall>g. rng_held (rng (rng_clear g)) = []
              \<and> released (rng_clear g) = released g @ rev (rng_held (rng g)))"
proof (cases "enter env avs f")
  case (Pair x f1)
  show ?thesis
  proof (cases x)
    case (Inl e)
    with Pair assms have "r = Inl e" "f' = rng_clear f1"
      by (simp_all add: run_def teardown_def)
    with Pair Inl show ?thesis by (auto simp: rng_clear_held rng_clear_released)
  next
    case (Inr u)
    with Pair have en: "enter env avs f = (Inr (), f1)" by simp
    from Inr Pair assms obtain r0 cr g1 where l: "loop env f1 = Some (r0, cr, g1)"
      and t: "(r, f') = teardown (r0, cr, g1)"
      by (auto simp: run_def)
    from t have r: "r0 = r" and f': "f' = (if cr then rng_clear g1 else g1)"
      by (simp_all add: teardown_def)
    from loop_last [OF l] r obtain g where lf: "last_frame env f1 = Some g"
      and st: "step env g = (r, cr, g1)" by blast
    note ex = step_exit [OF st]
    note fl = step_flag [OF st]
    show ?thesis
    proof (cases cr)
      case True
      with f' have fc: "f' = rng_clear g1" by simp
      have keep: "rng g1 = rng g \<and> released g1 = released g" if "r = Inr (Returned vs)" for vs
        using step_ret_keeps [of env g vs cr g1] st that by simp
      have A: "\<forall>vs. r = Inr (Returned vs) \<longrightarrow>
            (\<exists>f1 g0 g. enter env avs f = (Inr (), f1) \<and> last_frame env f1 = Some g0
                 \<and> step env g0 = (r, True, g) \<and> rng g = rng g0 \<and> released g = released g0
                 \<and> f' = rng_clear g
                 \<and> released f' = released g0 @ rev (rng_held (rng g0)))
            \<and> rng_held (rng f') = [] \<and> coroState (val f') = nil_vm"
      proof (intro allI impI)
        fix vs assume rv: "r = Inr (Returned vs)"
        from keep [OF rv] have k: "rng g1 = rng g" "released g1 = released g" by simp_all
        have "released f' = released g @ rev (rng_held (rng g))"
          by (simp add: fc rng_clear_released k)
        moreover have "step env g = (r, True, g1)" using st True by simp
        ultimately have "\<exists>f1 g0 g. enter env avs f = (Inr (), f1) \<and> last_frame env f1 = Some g0
                 \<and> step env g0 = (r, True, g) \<and> rng g = rng g0 \<and> released g = released g0
                 \<and> f' = rng_clear g
                 \<and> released f' = released g0 @ rev (rng_held (rng g0))"
          using en lf k fc by (intro exI [of _ f1] exI [of _ g] exI [of _ g1]) simp
        moreover have "rng_held (rng f') = []" by (simp add: fc rng_clear_held)
        moreover have "coroState (val f') = nil_vm" using ex rv by (simp add: fc rng_clear_val)
        ultimately show "(\<exists>f1 g0 g. enter env avs f = (Inr (), f1) \<and> last_frame env f1 = Some g0
                 \<and> step env g0 = (r, True, g) \<and> rng g = rng g0 \<and> released g = released g0
                 \<and> f' = rng_clear g
                 \<and> released f' = released g0 @ rev (rng_held (rng g0)))
            \<and> rng_held (rng f') = [] \<and> coroState (val f') = nil_vm" by blast
      qed
      have B: "\<forall>vs. r \<noteq> Inr (Yielded vs)" using ex True by auto
      have C: "\<forall>e. r = Inl e \<longrightarrow>
            (\<exists>f1 g g'. enter env avs f = (Inr (), f1) \<and> last_frame env f1 = Some g \<and> \<not> at_yld g
                   \<and> step env g = (Inl e, True, g') \<and> f' = rng_clear g'
                   \<and> released f' = released g' @ rev (rng_held (rng g')) \<and> rng_held (rng f') = [])"
        using en lf st True fl fc by (auto simp: rng_clear_held rng_clear_released)
      from A B C show ?thesis by (simp add: rng_clear_held rng_clear_released)
    next
      case False
      with f' have "f' = g1" by simp
      with ex False fl en lf st show ?thesis
        by (auto simp: rng_clear_held rng_clear_released rng_clear_val)
    qed
  qed
qed

lemmas eval_defs = enter_def newMachine_def empty_proto_def createLocals_def
     andThen_def bindArgs_done createArgsVal_def step_def stk_pop_def pop_def stk_push_def push_def
     Let_def Set1_def cont_def newValStack_def ok_def panic_def

lemmas teardown_defs = teardown_def rng_clear_def rng_held_def newMachine_def empty_proto_def

lemma ret_run:
  "run example_env ret_frame [] =
     Some (Inr (Returned [Nil_val]),
           ret_frame\<lparr>pc := 2, stk := \<lparr>st = [Nil_val], sp = 0\<rparr>,
                     rng := \<lparr>rng_st = [5, 3], rng_sp = 0\<rparr>, released := [3, 5]\<rparr>)"
proof -
  let ?f1 = "ret_frame\<lparr>pc := 1, stk := \<lparr>st = [Nil_val], sp = 1\<rparr>\<rparr>"
  let ?f2 = "ret_frame\<lparr>pc := 2, stk := \<lparr>st = [Nil_val], sp = 0\<rparr>\<rparr>"
  have e: "enter example_env [] ret_frame = (Inr (), ret_frame)"
    by (simp add: ret_frame_def eval_defs)
  have s1: "step example_env ret_frame = (Inr Continue, True, ?f1)"
    by (simp add: ret_frame_def eval_defs)
  have s2: "step example_env ?f1 = (Inr (Returned [Nil_val]), True, ?f2)"
    by (simp add: ret_frame_def eval_defs)
  have "loop example_env ret_frame = Some (Inr (Returned [Nil_val]), True, ?f2)"
    by (simp add: loop_continue [OF s1] loop_stop [OF s2])
  then have "run example_env ret_frame [] = Some (teardown (Inr (Returned [Nil_val]), True, ?f2))"
    by (simp add: run_def e)
  then show ?thesis
    by (simp add: teardown_defs ret_frame_def)
qed

lemma yld_run:
  "run example_env yld_frame [] = Some (Inr (Yielded [Nil_val]), suspended_frame)"
proof -
  let ?f1 = "yld_frame\<lparr>pc := 1, stk := \<lparr>st = [Nil_val], sp = 1\<rparr>\<rparr>"
  have e: "enter example_env [] yld_frame = (Inr (), yld_frame)"
    by (simp add: yld_frame_def eval_defs)
  have s1: "step example_env yld_frame = (Inr Continue, True, ?f1)"
    by (simp add: yld_frame_def eval_defs)
  have s2: "step example_env ?f1 = (Inr (Yielded [Nil_val]), False, suspended_frame)"
    by (simp add: yld_frame_def suspended_frame_def eval_defs)
  have "loop example_env yld_frame = Some (Inr (Yielded [Nil_val]), False, suspended_frame)"
    by (simp add: loop_continue [OF s1] loop_stop [OF s2])
  then show ?thesis
    by (simp add: run_def e teardown_def)
qed

lemma resume_run:
  "run example_env suspended_frame [Number 1] =
     Some (Inl (TypeError ''number'' [] ''func''),
           suspended_frame\<lparr>pc := 3, stk := \<lparr>st = [Nil_val], sp = 0\<rparr>,
                     rng := \<lparr>rng_st = [5, 3], rng_sp = 0\<rparr>, released := [3, 5]\<rparr>)"
proof -
  let ?f1 = "suspended_frame\<lparr>stk := \<lparr>st = [Number 1], sp = 1\<rparr>\<rparr>"
  let ?f2 = "suspended_frame\<lparr>pc := 3, stk := \<lparr>st = [Nil_val], sp = 0\<rparr>\<rparr>"
  have e: "enter example_env [Number 1] suspended_frame = (Inr (), ?f1)"
    by (simp add: yld_frame_def suspended_frame_def eval_defs)
  have s1: "step example_env ?f1 = (Inl (TypeError ''number'' [] ''func''), True, ?f2)"
    by (simp add: yld_frame_def suspended_frame_def eval_defs)
  have "loop example_env ?f1 = Some (Inl (TypeError ''number'' [] ''func''), True, ?f2)"
    by (simp add: loop_stop [OF s1])
  then have "run example_env suspended_frame [Number 1] =
      Some (teardown (Inl (TypeError ''number'' [] ''func''), True, ?f2))"
    by (simp add: run_def e)
  then show ?thesis
    by (simp add: teardown_defs yld_frame_def suspended_frame_def)
qed

lemma underflow_run:
  "run example_env underflow_frame [] =
     Some (Inl IndexOutOfRange,
           underflow_frame\<lparr>pc := 1, val := \<lparr>coroState = this_vm\<rparr>, stk := \<lparr>st = [], sp = -1\<rparr>\<rparr>)"
proof -
  let ?f2 = "underflow_frame\<lparr>pc := 1, val := \<lparr>coroState = this_vm\<rparr>, stk := \<lparr>st = [], sp = -1\<rparr>\<rparr>"
  have e: "enter example_env [] underflow_frame = (Inr (), underflow_frame)"
    by (simp add: underflow_frame_def eval_defs)
  have s1: "step example_env underflow_frame = (Inl IndexOutOfRange, False, ?f2)"
    by (simp add: underflow_frame_def eval_defs)
  have "loop example_env underflow_frame = Some (Inl IndexOutOfRange, False, ?f2)"
    by (simp add: loop_stop [OF s1])
  then show ?thesis
    by (simp add: run_def e teardown_def)
qed

theorem run_teardown_witness:
  "run example_env ret_frame [] =
     Some (Inr (Returned [Nil_val]),
           ret_frame\<lparr>pc := 2, stk := \<lparr>st = [Nil_val], sp = 0\<rparr>,
                     rng := \<lparr>rng_st = [5, 3], rng_sp = 0\<rparr>, released := [3, 5]\<rparr>)
   \<and> coroState (val (ret_frame\<lparr>pc := 2, stk := \<lparr>st = [Nil_val], sp = 0\<rparr>,
                     rng := \<lparr>rng_st = [5, 3], rng_sp = 0\<rparr>, released := [3, 5]\<rparr>)) = nil_vm
   \<and> run example_env yld_frame [] = Some (Inr (Yielded [Nil_val]), suspended_frame)
   \<and> coroState (val suspended_frame) = this_vm
   \<and> rng_held (rng suspended_frame) = [5, 3] \<and> released suspended_frame = []
   \<and> run example_env suspended_frame [Number 1] =
     Some (Inl (TypeError ''number'' [] ''func''),
           suspended_frame\<lparr>pc := 3, stk := \<lparr>st = [Nil_val], sp = 0\<rparr>,
                     rng := \<lparr>rng_st = [5, 3], rng_sp = 0\<rparr>, released := [3, 5]\<rparr>)"
proof -
  have a: "coroState (val (ret_frame\<lparr>pc := 2, stk := \<lparr>st = [Nil_val], sp = 0\<rparr>,
                     rng := \<lparr>rng_st = [5, 3], rng_sp = 0\<rparr>, released := [3, 5]\<rparr>)) = nil_vm"
    using run_teardown [OF ret_run] by blast
  have b: "coroState (val suspended_frame) = this_vm"
    using run_teardown [OF yld_run] by blast
  have c: "rng_held (rng suspended_frame) = [5, 3] \<and> released suspended_frame = []"
    by (simp add: suspended_frame_def yld_frame_def rng_held_def newMachine_def)
  from a b c ret_run yld_run resume_run show ?thesis by simp
qed

text \<open>
  Claim C2 as stated fails: a suspended frame that is resumed and ends in a fatal
  failure (the call of a number) keeps its saved suspended state.
\<close>

theorem failure_keeps_saved_state_counterexample:
  "run example_env yld_frame [] = Some (Inr (Yielded [Nil_val]), suspended_frame)
   \<and> (\<exists>f'. run example_env suspended_frame [Number 1] = Some (Inl (TypeError ''number'' [] ''func''), f')
          \<and> coroState (val f') = this_vm)"
proof -
  have "coroState (val (suspended_frame\<lparr>pc := 3, stk := \<lparr>st = [Nil_val], sp = 0\<rparr>,
                     rng := \<lparr>rng_st = [5, 3], rng_sp = 0\<rparr>, released := [3, 5]\<rparr>)) = this_vm"
    by (simp add: suspended_frame_def)
  with yld_run resume_run show ?thesis by simp
qed

text \<open>The pop of a YLD on an empty operand stack panics after \<open>clearRange\<close> was set
  to false: the failure propagates and the handles are not released.\<close>

lemma yld_underflow_keeps_handles:
  "\<exists>f'. run example_env underflow_frame [] = Some (Inl IndexOutOfRange, f')
        \<and> rng_held (rng f') = [5, 3] \<and> released f' = []"
proof -
  let ?f' = "underflow_frame\<lparr>pc := 1, val := \<lparr>coroState = this_vm\<rparr>, stk := \<lparr>st = [], sp = -1\<rparr>\<rparr>"
  have "rng_held (rng ?f') = [5, 3] \<and> released ?f' = []"
    by (simp add: underflow_frame_def rng_held_def newMachine_def)
  with underflow_run show ?thesis by simp
qed

text \<open>
  Claim C1. Let a frame with a well-formed, non-empty operand stack be at a YLD
  instruction. The dispatch loop ends there: the run that reached the frame hands the
  top value to the caller and leaves the frame \<open>saved\<close> (untouched by the deferred
  teardown). Resuming \<open>saved\<close> with the arguments \<open>v # rest\<close> pushes \<open>v\<close> and runs the
  dispatch loop on the frame \<open>resumed\<close>: its first iteration executes the instruction
  after the YLD (or fails on the fetch when the YLD was the last instruction), the
  first pop of that instruction yields \<open>v\<close> and leaves the operand stack of the
  moment after the yield, and when that instruction is a RET the resumed run returns
  \<open>v\<close>. In \<open>resumed\<close> the program counter is the instruction after the YLD, \<open>v\<close> is in
  the slot of the yielded value, and the variables and every other slot of the operand
  stack are those of the moment of suspension.
\<close>

theorem yield_then_resume:
  assumes "0 \<le> pc f" and "pc f < int (length (code (proto f)))"
      and "Opcode (code (proto f) ! nat (pc f)) = OP_YLD"
      and "0 < sp (stk f)" and "sp (stk f) \<le> int (length (st (stk f)))"
  shows "let top = nat (sp (stk f) - 1);
             saved = f\<lparr>pc := pc f + 1, val := (val f)\<lparr>coroState := this_vm\<rparr>,
                       stk := \<lparr>st = (st (stk f))[top := Nil_val], sp = sp (stk f) - 1\<rparr>\<rparr>;
             resumed = f\<lparr>pc := pc f + 1, val := (val f)\<lparr>coroState := this_vm\<rparr>,
                         stk := \<lparr>st = (st (stk f))[top := v], sp = sp (stk f)\<rparr>\<rparr>;
             next = code (proto f) ! nat (pc f + 1)
         in step env f = (Inr (Yielded [st (stk f) ! top]), False, saved)
          \<and> teardown (step env f) = (Inr (Yielded [st (stk f) ! top]), saved)
          \<and> enter env (v # rest) saved = (Inr (), resumed)
          \<and> run env saved (v # rest) = map_option teardown (loop env resumed)
          \<and> pc resumed = pc f + 1 \<and> vars resumed = vars f
          \<and> sp (stk resumed) = sp (stk f) \<and> st (stk resumed) ! top = v
          \<and> (\<forall>i. i \<noteq> top \<longrightarrow> st (stk resumed) ! i = st (stk f) ! i)
          \<and> loop env f = Some (Inr (Yielded [st (stk f) ! top]), False, saved)
          \<and> (\<forall>f0 avs f1. enter env avs f0 = (Inr (), f1) \<and> last_frame env f1 = Some f \<longrightarrow>
                run env f0 avs = Some (Inr (Yielded [st (stk f) ! top]), saved))
          \<and> run env saved (v # rest) =
                map_option teardown
                  (case step env resumed of
                     (Inr Continue, cr, f') \<Rightarrow> loop env f'
                   | (r, cr, f') \<Rightarrow> Some (r, cr, f'))
          \<and> (pc f + 1 < int (length (code (proto f))) \<longrightarrow>
                step env resumed =
                  exec env (Opcode next) (Flag next) (Index next) (resumed\<lparr>pc := pc f + 2\<rparr>))
          \<and> (\<not> pc f + 1 < int (length (code (proto f))) \<longrightarrow>
                step env resumed = (Inl IndexOutOfRange, True, resumed))
          \<and> stk_pop (resumed\<lparr>pc := pc f + 2\<rparr>) = (Inr v, saved\<lparr>pc := pc f + 2\<rparr>)
          \<and> (pc f + 1 < int (length (code (proto f))) \<and> Opcode next = OP_RET \<longrightarrow>
                run env saved (v # rest) =
                  Some (Inr (Returned [v]),
                        rng_clear (saved\<lparr>pc := pc f + 2, val := (val f)\<lparr>coroState := nil_vm\<rparr>\<rparr>)))"
proof -
  let ?top = "nat (sp (stk f) - 1)"
  let ?saved = "f\<lparr>pc := pc f + 1, val := (val f)\<lparr>coroState := this_vm\<rparr>,
                       stk := \<lparr>st = (st (stk f))[?top := Nil_val], sp = sp (stk f) - 1\<rparr>\<rparr>"
  let ?resumed = "f\<lparr>pc := pc f + 1, val := (val f)\<lparr>coroState := this_vm\<rparr>,
                         stk := \<lparr>st = (st (stk f))[?top := v], sp = sp (stk f)\<rparr>\<rparr>"
  let ?next = "code (proto f) ! nat (pc f + 1)"
  let ?y = "Inr (Yielded [st (stk f) ! ?top]) :: error + ctl"
  have s: "step env f = (?y, False, ?saved)"
    using assms by (simp add: step_def Let_def stk_pop_def pop_def Set1_def)
  have e: "enter env (v # rest) ?saved = (Inr (), ?resumed)"
    using assms by (auto simp: enter_def stk_push_def push_def)
  have r: "run env ?saved (v # rest) = map_option teardown (loop env ?resumed)"
    by (simp add: run_def e)
  have t: "st (stk ?resumed) ! ?top = v" using assms by simp
  have l: "loop env f = Some (?y, False, ?saved)"
    using s by (rule loop_stop) simp
  have reach: "run env f0 avs = Some (?y, ?saved)"
    if "enter env avs f0 = (Inr (), f1)" and "last_frame env f1 = Some f" for f0 avs f1
  proof -
    from last_frame_loop_gen [OF that(2)] s have "loop env f1 = Some (?y, False, ?saved)" by simp
    with that(1) show ?thesis by (simp add: run_def teardown_def)
  qed
  have r2: "run env ?saved (v # rest) =
                map_option teardown
                  (case step env ?resumed of
                     (Inr Continue, cr, f') \<Rightarrow> loop env f'
                   | (r, cr, f') \<Rightarrow> Some (r, cr, f'))"
    unfolding r by (subst loop.simps) (simp split: prod.splits sum.splits ctl.splits)
  have s1: "step env ?resumed =
                  exec env (Opcode ?next) (Flag ?next) (Index ?next) (?resumed\<lparr>pc := pc f + 2\<rparr>)"
    if "pc f + 1 < int (length (code (proto f)))"
    using that assms(1) by (simp add: step_def Let_def add.commute)
  have s2: "step env ?resumed = (Inl IndexOutOfRange, True, ?resumed)"
    if "\<not> pc f + 1 < int (length (code (proto f)))"
    using that by (simp add: step_def)
  have p: "stk_pop (?resumed\<lparr>pc := pc f + 2\<rparr>) = (Inr v, ?saved\<lparr>pc := pc f + 2\<rparr>)"
    using assms by (simp add: stk_pop_def pop_def Let_def)
  have ret: "run env ?saved (v # rest) =
                  Some (Inr (Returned [v]),
                        rng_clear (?saved\<lparr>pc := pc f + 2, val := (val f)\<lparr>coroState := nil_vm\<rparr>\<rparr>))"
    if a: "pc f + 1 < int (length (code (proto f)))" and b: "Opcode ?next = OP_RET"
  proof -
    have "step env ?resumed = (Inr (Returned [v]), True,
             ?saved\<lparr>pc := pc f + 2, val := (val f)\<lparr>coroState := nil_vm\<rparr>\<rparr>)"
      unfolding s1 [OF a] b using assms by (simp add: stk_pop_def pop_def Let_def Set1_def)
    then have "loop env ?resumed = Some (Inr (Returned [v]), True,
             ?saved\<lparr>pc := pc f + 2, val := (val f)\<lparr>coroState := nil_vm\<rparr>\<rparr>)"
      by (rule loop_stop) simp
    then show ?thesis unfolding r by (simp add: teardown_def)
  qed
  show ?thesis
    unfolding Let_def
    using s e r t l reach r2 s1 s2 p ret
    by (intro conjI allI impI) (simp_all add: teardown_def)
qed

text \<open>
  Claim C10. A frame whose program counter is above 0 is resumed: only the first
  argument is pushed and the run is the run with that argument alone; with no
  argument, Nil is pushed.
\<close>

theorem resume_uses_first_argument_only:
  assumes "0 < pc f"
  shows "enter env (a # rest) f = stk_push a f
       \<and> run env f (a # rest) = run env f [a]
       \<and> enter env [] f = stk_push Nil_val f
       \<and> run env f [] = run env f [Nil_val]"
  using assms by (simp add: run_def enter_def)

theorem yield_then_resume_witness:
  "step example_env at_yld_frame =
     (Inr (Yielded [Number 8]), False,
      at_yld_frame\<lparr>pc := 2, val := \<lparr>coroState = this_vm\<rparr>, stk := \<lparr>st = [Number 7, Nil_val], sp = 1\<rparr>\<rparr>)
   \<and> loop example_env at_yld_frame =
     Some (Inr (Yielded [Number 8]), False,
      at_yld_frame\<lparr>pc := 2, val := \<lparr>coroState = this_vm\<rparr>, stk := \<lparr>st = [Number 7, Nil_val], sp = 1\<rparr>\<rparr>)
   \<and> enter example_env [Number 4, Number 5]
        (at_yld_frame\<lparr>pc := 2, val := \<lparr>coroState = this_vm\<rparr>, stk := \<lparr>st = [Number 7, Nil_val], sp = 1\<rparr>\<rparr>) =
     (Inr (), at_yld_frame\<lparr>pc := 2, val := \<lparr>coroState = this_vm\<rparr>, stk := \<lparr>st = [Number 7, Number 4], sp = 2\<rparr>\<rparr>)
   \<and> vars (at_yld_frame\<lparr>pc := 2, val := \<lparr>coroState = this_vm\<rparr>, stk := \<lparr>st = [Number 7, Number 4], sp = 2\<rparr>\<rparr>) ''x''
       = Some (Number 3)
   \<and> run example_env
        (at_yld_frame\<lparr>pc := 2, val := \<lparr>coroState = this_vm\<rparr>, stk := \<lparr>st = [Number 7, Nil_val], sp = 1\<rparr>\<rparr>)
        [Number 4, Number 5] =
     Some (Inr (Returned [Number 4]),
       rng_clear (at_yld_frame\<lparr>stk := \<lparr>st = [Number 7, Nil_val], sp = 1\<rparr>, pc := 3,
         val := \<lparr>coroState = nil_vm\<rparr>\<rparr>))"
proof -
  let ?f = "at_yld_frame :: unit machine"
  let ?saved = "?f\<lparr>pc := pc ?f + 1, val := (val ?f)\<lparr>coroState := this_vm\<rparr>,
      stk := \<lparr>st = (st (stk ?f))[nat (sp (stk ?f) - 1) := Nil_val], sp = sp (stk ?f) - 1\<rparr>\<rparr>"
  have h: "0 \<le> pc ?f" "pc ?f < int (length (code (proto ?f)))"
    "Opcode (code (proto ?f) ! nat (pc ?f)) = OP_YLD"
    "0 < sp (stk ?f)" "sp (stk ?f) \<le> int (length (st (stk ?f)))"
    by (simp_all add: at_yld_frame_def newMachine_def empty_proto_def)
  have v: "val ?f = \<lparr>coroState = nil_vm\<rparr>" "st (stk ?f) = [Number 7, Number 8]"
    "sp (stk ?f) = 2" "pc ?f = 1" "vars ?f ''x'' = Some (Number 3)"
    by (simp_all add: at_yld_frame_def newMachine_def)
  have n: "pc ?f + 1 < int (length (code (proto ?f)))
      \<and> Opcode (code (proto ?f) ! nat (pc ?f + 1)) = OP_RET"
    by (simp add: at_yld_frame_def newMachine_def empty_proto_def)
  note T = yield_then_resume [OF h, where env = example_env and v = "Number 4"
      and rest = "[Number 5]", unfolded Let_def]
  from T n have "run example_env ?saved [Number 4, Number 5] =
      Some (Inr (Returned [Number 4]),
        rng_clear (?saved\<lparr>pc := pc ?f + 2, val := (val ?f)\<lparr>coroState := nil_vm\<rparr>\<rparr>))"
    by blast
  then have R: "run example_env
        (at_yld_frame\<lparr>pc := 2, val := \<lparr>coroState = this_vm\<rparr>, stk := \<lparr>st = [Number 7, Nil_val], sp = 1\<rparr>\<rparr>)
        [Number 4, Number 5] =
     Some (Inr (Returned [Number 4]),
       rng_clear (at_yld_frame\<lparr>stk := \<lparr>st = [Number 7, Nil_val], sp = 1\<rparr>, pc := 3,
         val := \<lparr>coroState = nil_vm\<rparr>\<rparr>))"
    by (simp add: v)
  from T have S: "step example_env at_yld_frame =
     (Inr (Yielded [Number 8]), False,
      at_yld_frame\<lparr>pc := 2, val := \<lparr>coroState = this_vm\<rparr>, stk := \<lparr>st = [Number 7, Nil_val], sp = 1\<rparr>\<rparr>)"
    and L: "loop example_env at_yld_frame =
     Some (Inr (Yielded [Number 8]), False,
      at_yld_frame\<lparr>pc := 2, val := \<lparr>coroState = this_vm\<rparr>, stk := \<lparr>st = [Number 7, Nil_val], sp = 1\<rparr>\<rparr>)"
    and E: "enter example_env [Number 4, Number 5]
        (at_yld_frame\<lparr>pc := 2, val := \<lparr>coroState = this_vm\<rparr>, stk := \<lparr>st = [Number 7, Nil_val], sp = 1\<rparr>\<rparr>) =
     (Inr (), at_yld_frame\<lparr>pc := 2, val := \<lparr>coroState = this_vm\<rparr>, stk := \<lparr>st = [Number 7, Number 4], sp = 2\<rparr>\<rparr>)"
    by (simp_all add: v)
  from S L E R v(5) show ?thesis by simp
qed

theorem resume_uses_first_argument_only_witness:
  "0 < pc suspended_frame
   \<and> run example_env suspended_frame [Number 1, Number 2] = run example_env suspended_frame [Number 1]
   \<and> run example_env suspended_frame [Number 1, Number 2] =
     Some (Inl (TypeError ''number'' [] ''func''),
           suspended_frame\<lparr>pc := 3, stk := \<lparr>st = [Nil_val], sp = 0\<rparr>,
                     rng := \<lparr>rng_st = [5, 3], rng_sp = 0\<rparr>, released := [3, 5]\<rparr>)"
proof -
  have h: "0 < pc suspended_frame" by (simp add: suspended_frame_def)
  from resume_uses_first_argument_only [OF h, where env = example_env and a = "Number 1" and rest = "[Number 2]"]
    h resume_run
  show ?thesis by simp
qed

section \<open>Properties of single instructions\<close>

text \<open>
  Claim C4. Let the range stack hold a coroutine and let the resume of the most
  recently pushed one report an error \<open>e\<close>, leaving the machine \<open>f1\<close>. If \<open>e\<close> is the
  normal exhaustion \<open>ErrEndOfCoro\<close>, then \<open>OP_RNGP\<close> does nothing but push the boolean
  false, whatever the index \<open>ix\<close>: on a well-formed operand stack the depth grows by
  exactly one, the new top is \<open>Bool False\<close> and the values below are untouched. If
  \<open>e\<close> is any other error, the instruction panics with it.
\<close>

theorem rngp_exhausted_pushes_false:
  assumes "0 < rng_sp (rng f)" and "rng_sp (rng f) \<le> int (length (rng_st (rng f)))"
      and "Resume env (rng_st (rng f) ! nat (rng_sp (rng f) - 1)) f = (Inr (v, Some e), f1)"
  shows "(e = ErrEndOfCoro \<longrightarrow>
            exec env OP_RNGP flg ix f = cont (stk_push (Bool False) f1)
            \<and> (0 \<le> sp (stk f1) \<and> sp (stk f1) \<le> int (length (st (stk f1))) \<longrightarrow>
                 (\<exists>s'. exec env OP_RNGP flg ix f =
                          (Inr Continue, True, f1\<lparr>stk := \<lparr>st = s', sp = sp (stk f1) + 1\<rparr>\<rparr>)
                      \<and> s' ! nat (sp (stk f1)) = Bool False
                      \<and> (\<forall>i. int i < sp (stk f1) \<longrightarrow> s' ! i = st (stk f1) ! i))))
       \<and> (\<forall>msg. e = ErrOther msg \<longrightarrow> exec env OP_RNGP flg ix f = (Inl (CoroFailure msg), True, f1))"
proof -
  have a: "e = ErrEndOfCoro \<Longrightarrow> exec env OP_RNGP flg ix f = cont (stk_push (Bool False) f1)"
    using assms by (simp add: rngp_def Let_def andThen_def ok_def)
  have b: "e = ErrEndOfCoro \<Longrightarrow> 0 \<le> sp (stk f1) \<Longrightarrow> sp (stk f1) \<le> int (length (st (stk f1))) \<Longrightarrow>
        (\<exists>s'. exec env OP_RNGP flg ix f =
                          (Inr Continue, True, f1\<lparr>stk := \<lparr>st = s', sp = sp (stk f1) + 1\<rparr>\<rparr>)
                      \<and> s' ! nat (sp (stk f1)) = Bool False
                      \<and> (\<forall>i. int i < sp (stk f1) \<longrightarrow> s' ! i = st (stk f1) ! i))"
  proof -
    assume e: "e = ErrEndOfCoro" and w: "0 \<le> sp (stk f1)" "sp (stk f1) \<le> int (length (st (stk f1)))"
    let ?s = "if sp (stk f1) = int (length (st (stk f1))) then st (stk f1) @ [Bool False]
              else (st (stk f1))[nat (sp (stk f1)) := Bool False]"
    have "exec env OP_RNGP flg ix f = (Inr Continue, True, f1\<lparr>stk := \<lparr>st = ?s, sp = sp (stk f1) + 1\<rparr>\<rparr>)"
      using a [OF e] stk_push_wf [OF w, of "Bool False"] by (simp add: cont_def)
    moreover have "?s ! nat (sp (stk f1)) = Bool False" using w by (auto simp: nth_append)
    moreover have "\<forall>i. int i < sp (stk f1) \<longrightarrow> ?s ! i = st (stk f1) ! i"
      using w by (auto simp: nth_append)
    ultimately show ?thesis by blast
  qed
  have c: "\<And>msg. e = ErrOther msg \<Longrightarrow> exec env OP_RNGP flg ix f = (Inl (CoroFailure msg), True, f1)"
    using assms by (simp add: rngp_def Let_def andThen_def panic_def cont_def)
  from a b c show ?thesis by blast
qed

theorem rngp_exhausted_pushes_false_witness:
  "exec example_env OP_RNGP FLG_other 3 rngp_frame =
     (Inr Continue, True, rngp_frame\<lparr>stk := \<lparr>st = [Number 7, Bool False], sp = 2\<rparr>\<rparr>)"
proof -
  have h: "0 < rng_sp (rng rngp_frame)" "rng_sp (rng rngp_frame) \<le> int (length (rng_st (rng rngp_frame)))"
    "Resume example_env (rng_st (rng rngp_frame) ! nat (rng_sp (rng rngp_frame) - 1)) rngp_frame
       = (Inr (IOther, Some ErrEndOfCoro), rngp_frame)"
    by (simp_all add: rngp_frame_def newMachine_def example_env_def)
  from rngp_exhausted_pushes_false [OF h, of FLG_other 3]
  show ?thesis
    by (simp add: cont_def stk_push_def push_def rngp_frame_def newMachine_def)
qed

lemma unat_two: "unat (2 :: 64 word) = Suc (Suc 0)"
  by simp

text \<open>
  Claim C5 as stated fails. On the stack (bottom to top)
  \<open>[Object, "a", 1, "b", 2]\<close>, \<open>OP_NEW\<close> with index 2 pops the key first and the value
  second in each pair, so the new object maps \<open>2\<close> to \<open>"b"\<close> and \<open>1\<close> to \<open>"a"\<close>; it has
  no key \<open>"a"\<close>.
\<close>

theorem new_example_counterexample:
  "exec example_env OP_NEW FLG_other 2
       (new_frame [Object 0, String ''a'', Number 1, String ''b'', Number 2]) =
     (Inr Continue, True,
      (new_frame [Object 0, String ''a'', Number 1, String ''b'', Number 2])
        \<lparr>stk := \<lparr>st = [Object 0, Object 1, Nil_val, Nil_val, Nil_val], sp = 2\<rparr>,
          objs := [Map.empty, [Number 2 \<mapsto> String ''b'', Number 1 \<mapsto> String ''a'']]\<rparr>)
   \<and> [Number 2 \<mapsto> String ''b'', Number 1 \<mapsto> String ''a''] (String ''a'') = None
   \<and> [Number 2 \<mapsto> String ''b'', Number 1 \<mapsto> String ''a''] (Number 1) = Some (String ''a'')
   \<and> [Number 2 \<mapsto> String ''b'', Number 1 \<mapsto> String ''a'']
        \<noteq> [String ''a'' \<mapsto> Number 1, String ''b'' \<mapsto> Number 2]"
proof -
  have "[Number 2 \<mapsto> String ''b'', Number 1 \<mapsto> String ''a''] (String ''a'')
        \<noteq> [String ''a'' \<mapsto> Number 1, String ''b'' \<mapsto> Number 2] (String ''a'')"
    by simp
  then have "[Number 2 \<mapsto> String ''b'', Number 1 \<mapsto> String ''a'']
        \<noteq> [String ''a'' \<mapsto> Number 1, String ''b'' \<mapsto> Number 2]"
    by metis
  then show ?thesis
    unfolding exec.simps unat_two
    by (simp add: new_frame_def newMachine_def eval_defs NewObject_def Object_Set_def)
qed

text \<open>
  Claim C5, as amended. When the four topmost values of the operand stack are (bottom
  to top) \<open>v1, k1, v2, k2\<close>, each value below its key, \<open>OP_NEW\<close> with index 2 pops them in
  pairs, key then value, the pair nearest the top first, and pushes a new object with
  \<open>k2\<close> set to \<open>v2\<close> and then \<open>k1\<close> set to \<open>v1\<close>; the values below are left in place. On
  \<open>[Object, 1, "a", 2, "b"]\<close> the new object is \<open>{a:1, b:2}\<close>.
\<close>

theorem new_pops_key_then_value:
  assumes "st (stk f) = pre @ [v1, k1, v2, k2] @ post"
      and "sp (stk f) = int (length pre) + 4"
  shows "exec env OP_NEW flg 2 f =
     (Inr Continue, True,
      f\<lparr>stk := \<lparr>st = pre @ [Object (length (objs f)), Nil_val, Nil_val, Nil_val] @ post,
                 sp = int (length pre) + 1\<rparr>,
        objs := objs f @ [[k2 \<mapsto> v2, k1 \<mapsto> v1]]\<rparr>)"
  using assms unfolding exec.simps unat_two
  by (simp add: eval_defs NewObject_def Object_Set_def nth_append
        list_update_append nat_add_distrib)

theorem new_pops_key_then_value_witness:
  "exec example_env OP_NEW FLG_other 2
       (new_frame [Object 0, Number 1, String ''a'', Number 2, String ''b'']) =
     (Inr Continue, True,
      (new_frame [Object 0, Number 1, String ''a'', Number 2, String ''b''])
        \<lparr>stk := \<lparr>st = [Object 0, Object 1, Nil_val, Nil_val, Nil_val], sp = 2\<rparr>,
          objs := [Map.empty, [String ''b'' \<mapsto> Number 2, String ''a'' \<mapsto> Number 1]]\<rparr>)
   \<and> [String ''b'' \<mapsto> Number 2, String ''a'' \<mapsto> Number 1]
       = [String ''a'' \<mapsto> Number 1, String ''b'' \<mapsto> Number 2]"
proof -
  let ?f = "new_frame [Object 0, Number 1, String ''a'', Number 2, String ''b'']"
  have h: "st (stk ?f) = [Object 0] @ [Number 1, String ''a'', Number 2, String ''b''] @ []"
    "sp (stk ?f) = int (length [Object 0]) + 4"
    by (simp_all add: new_frame_def)
  have o: "objs ?f = [Map.empty]" by (simp add: new_frame_def)
  have m: "[String ''b'' \<mapsto> Number 2, String ''a'' \<mapsto> Number 1]
       = [String ''a'' \<mapsto> Number 1, String ''b'' \<mapsto> Number 2]"
    by (rule ext) simp
  from new_pops_key_then_value [OF h, of example_env FLG_other] o m
  show ?thesis by simp
qed

lemma valStack_all_updates: "(vs :: valStack)\<lparr>sp := b, st := a\<rparr> = \<lparr>st = a, sp = b\<rparr>"
  by (cases vs) simp

lemma pushAll_wf:
  "0 \<le> sp (stk g) \<Longrightarrow> sp (stk g) \<le> int (length (st (stk g))) \<Longrightarrow>
   \<exists>s'. pushAll vs g = (Inr (), g\<lparr>stk := \<lparr>st = s', sp = sp (stk g) + int (length vs)\<rparr>\<rparr>)
      \<and> length s' = max (length (st (stk g))) (nat (sp (stk g)) + length vs)
      \<and> take (nat (sp (stk g)) + length vs) s' = take (nat (sp (stk g))) (st (stk g)) @ vs"
proof (induction vs arbitrary: g)
  case Nil
  have "g = g\<lparr>stk := \<lparr>st = st (stk g), sp = sp (stk g) + int (length ([] :: Val list))\<rparr>\<rparr>" by simp
  moreover have "pushAll [] g = (Inr (), g)" by simp
  ultimately have "pushAll [] g = (Inr (), g\<lparr>stk := \<lparr>st = st (stk g), sp = sp (stk g) + int (length ([] :: Val list))\<rparr>\<rparr>)"
    by simp
  moreover have "length (st (stk g)) = max (length (st (stk g))) (nat (sp (stk g)) + length ([] :: Val list))"
  proof -
    have "nat (sp (stk g)) \<le> length (st (stk g))" using Nil by linarith
    then show ?thesis by (simp add: max_def)
  qed
  ultimately show ?case by (intro exI [of _ "st (stk g)"]) simp
next
  case (Cons v vs)
  let ?s1 = "if sp (stk g) = int (length (st (stk g))) then st (stk g) @ [v]
             else (st (stk g))[nat (sp (stk g)) := v]"
  let ?g1 = "g\<lparr>stk := \<lparr>st = ?s1, sp = sp (stk g) + 1\<rparr>\<rparr>"
  have p: "stk_push v g = (Inr (), ?g1)" using Cons.prems by (rule stk_push_wf)
  have w1: "0 \<le> sp (stk ?g1)" "sp (stk ?g1) \<le> int (length (st (stk ?g1)))"
    using Cons.prems by auto
  from Cons.IH [OF w1] obtain s' where
    r: "pushAll vs ?g1 = (Inr (), ?g1\<lparr>stk := \<lparr>st = s', sp = sp (stk ?g1) + int (length vs)\<rparr>\<rparr>)"
    and l: "length s' = max (length (st (stk ?g1))) (nat (sp (stk ?g1)) + length vs)"
    and t: "take (nat (sp (stk ?g1)) + length vs) s' = take (nat (sp (stk ?g1))) (st (stk ?g1)) @ vs"
    by blast
  have n1: "nat (sp (stk ?g1)) = Suc (nat (sp (stk g)))" using Cons.prems by (simp add: nat_add_distrib)
  have "pushAll (v # vs) g = (Inr (), g\<lparr>stk := \<lparr>st = s', sp = sp (stk g) + int (length (v # vs))\<rparr>\<rparr>)"
    using p r by (simp add: algebra_simps)
  moreover have "length s' = max (length (st (stk g))) (nat (sp (stk g)) + length (v # vs))"
    using l n1 Cons.prems by (auto simp: max_def)
  moreover have "take (nat (sp (stk ?g1))) (st (stk ?g1)) = take (nat (sp (stk g))) (st (stk g)) @ [v]"
    using Cons.prems unfolding n1
    by (auto simp: take_Suc_conv_app_nth nth_append)
  then have "take (nat (sp (stk g)) + length (v # vs)) s' = take (nat (sp (stk g))) (st (stk g)) @ v # vs"
    using t n1 by simp
  ultimately show ?case by blast
qed

text \<open>
  Claim C6 as stated fails. On the stack (bottom to top) \<open>[fn, 1, 2]\<close>, \<open>OP_CALL\<close> pops
  the top value \<open>2\<close> as the callee and panics with a type error: no function is
  invoked.
\<close>

theorem call_example_counterexample:
  "exec example_env OP_CALL FLG_other 2 (call_frame [Func 0, Number 1, Number 2]) =
     (Inl (TypeError ''number'' [] ''func''), True,
      (call_frame [Func 0, Number 1, Number 2])\<lparr>stk := \<lparr>st = [Func 0, Number 1, Nil_val], sp = 2\<rparr>\<rparr>)"
  by (simp add: call_frame_def newMachine_def eval_defs)

text \<open>
  Claim C6, as amended. When the three topmost values of the operand stack are (bottom
  to top) \<open>a1, a2, fn\<close> with \<open>fn\<close> a function value, \<open>OP_CALL\<close> with index 2 pops the
  callee and then the arguments, calls \<open>fn\<close> with no bound \<open>this\<close> and the arguments
  \<open>[a1, a2]\<close> in that order, and pushes the results in order: when the call returns
  \<open>vals\<close> and leaves a well-formed operand stack, the stack afterwards is that stack
  followed by \<open>vals\<close>.
\<close>

theorem call_pops_callee_then_arguments:
  assumes "st (stk f) = pre @ [a1, a2, Func fn] @ post"
      and "sp (stk f) = int (length pre) + 3"
  shows "exec env OP_CALL flg 2 f =
           cont (andThen (Func_Call env fn None [a1, a2]) pushAll
                   (f\<lparr>stk := \<lparr>st = pre @ [Nil_val, Nil_val, Nil_val] @ post, sp = int (length pre)\<rparr>\<rparr>))
       \<and> (\<forall>vals g. Func_Call env fn None [a1, a2]
                     (f\<lparr>stk := \<lparr>st = pre @ [Nil_val, Nil_val, Nil_val] @ post, sp = int (length pre)\<rparr>\<rparr>)
                     = (Inr vals, g)
                   \<and> 0 \<le> sp (stk g) \<and> sp (stk g) \<le> int (length (st (stk g)))
             \<longrightarrow> (\<exists>s'. exec env OP_CALL flg 2 f =
                          (Inr Continue, True, g\<lparr>stk := \<lparr>st = s', sp = sp (stk g) + int (length vals)\<rparr>\<rparr>)
                      \<and> take (nat (sp (stk g)) + length vals) s'
                          = take (nat (sp (stk g))) (st (stk g)) @ vals))"
proof -
  let ?f0 = "f\<lparr>stk := \<lparr>st = pre @ [Nil_val, Nil_val, Nil_val] @ post, sp = int (length pre)\<rparr>\<rparr>"
  have a: "exec env OP_CALL flg 2 f = cont (andThen (Func_Call env fn None [a1, a2]) pushAll ?f0)"
    using assms unfolding exec.simps unat_two
    by (simp add: stk_pop_def pop_def Let_def andThen_def nth_append list_update_append nat_add_distrib
          valStack_all_updates)
  have b: "\<exists>s'. exec env OP_CALL flg 2 f =
                 (Inr Continue, True, g\<lparr>stk := \<lparr>st = s', sp = sp (stk g) + int (length vals)\<rparr>\<rparr>)
               \<and> take (nat (sp (stk g)) + length vals) s' = take (nat (sp (stk g))) (st (stk g)) @ vals"
    if c: "Func_Call env fn None [a1, a2] ?f0 = (Inr vals, g)"
      and w: "0 \<le> sp (stk g)" "sp (stk g) \<le> int (length (st (stk g)))" for vals g
  proof -
    from pushAll_wf [OF w, of vals] obtain s' where
      r: "pushAll vals g = (Inr (), g\<lparr>stk := \<lparr>st = s', sp = sp (stk g) + int (length vals)\<rparr>\<rparr>)"
      and t: "take (nat (sp (stk g)) + length vals) s' = take (nat (sp (stk g))) (st (stk g)) @ vals"
      by blast
    have "exec env OP_CALL flg 2 f =
            (Inr Continue, True, g\<lparr>stk := \<lparr>st = s', sp = sp (stk g) + int (length vals)\<rparr>\<rparr>)"
      unfolding a using c r by (simp add: andThen_def cont_def)
    with t show ?thesis by blast
  qed
  from a b show ?thesis by blast
qed

theorem call_pops_callee_then_arguments_witness:
  "exec example_env OP_CALL FLG_other 2 (call_frame [Number 9, Number 1, Number 2, Func 0]) =
     (Inr Continue, True,
      (call_frame [Number 9, Number 1, Number 2, Func 0])
         \<lparr>stk := \<lparr>st = [Number 9, Number 1, Number 2, Nil_val], sp = 3\<rparr>\<rparr>)"
proof -
  let ?f = "call_frame [Number 9, Number 1, Number 2, Func 0]"
  have h: "st (stk ?f) = [Number 9] @ [Number 1, Number 2, Func 0] @ []"
    "sp (stk ?f) = int (length [Number 9]) + 3"
    by (simp_all add: call_frame_def)
  from call_pops_callee_then_arguments [OF h, where env = example_env and flg = FLG_other]
  have "exec example_env OP_CALL FLG_other 2 ?f =
     cont (andThen (Func_Call example_env 0 None [Number 1, Number 2]) pushAll
             (?f\<lparr>stk := \<lparr>st = [Number 9] @ [Nil_val, Nil_val, Nil_val] @ [], sp = int (length [Number 9])\<rparr>\<rparr>))"
    by blast
  then show ?thesis
    by (simp add: example_env_def call_frame_def newMachine_def eval_defs)
qed

section \<open>Properties of the initial run\<close>

lemma fold_bindArg_lookup:
  "a \<le> j \<Longrightarrow> j < n \<Longrightarrow>
   (\<forall>k. j < k \<and> k < n \<longrightarrow> Val_String env (kTable p ! k) \<noteq> Val_String env (kTable p ! j)) \<Longrightarrow>
   fold (bindArg env p avs) [a..<n] m0 (Val_String env (kTable p ! j))
     = Some (if j < length avs then avs ! j else Nil_val)"
proof (induction n)
  case 0
  then show ?case by simp
next
  case (Suc n)
  show ?case
  proof (cases "j = n")
    case True
    with Suc.prems show ?thesis by (simp add: bindArg_def)
  next
    case False
    have jn: "j < n" using Suc.prems(2) False by simp
    have an: "a \<le> n" using Suc.prems(1) jn by simp
    have "Val_String env (kTable p ! n) \<noteq> Val_String env (kTable p ! j)"
      using Suc.prems(3) [rule_format, of n] jn by simp
    then have ne: "Val_String env (kTable p ! j) \<noteq> Val_String env (kTable p ! n)" by simp
    from Suc.prems have "\<forall>k. j < k \<and> k < n \<longrightarrow> Val_String env (kTable p ! k) \<noteq> Val_String env (kTable p ! j)"
      by auto
    from Suc.IH [OF Suc.prems(1) jn this] an ne show ?thesis by (simp add: bindArg_def)
  qed
qed

lemma bindArgs_fold:
  "0 \<le> j \<Longrightarrow> expArgs (proto f) \<le> int (length (kTable (proto f))) \<Longrightarrow>
   bindArgs env avs j f =
     (Inr (), f\<lparr>vars := fold (bindArg env (proto f) avs) [nat j..<nat (expArgs (proto f))] (vars f)\<rparr>)"
proof (induction env avs j f rule: bindArgs.induct)
  case (1 env avs j f)
  show ?case
  proof (cases "j < expArgs (proto f)")
    case False
    then have "[nat j..<nat (expArgs (proto f))] = []" by simp
    with False show ?thesis by (subst bindArgs.simps) simp
  next
    case True
    with 1(2,3) have inr: "0 \<le> j \<and> j < int (length (kTable (proto f)))" by simp
    let ?f1 = "f\<lparr>vars := (vars f)(Val_String env (kTable (proto f) ! nat j) \<mapsto>
                                  (if j < int (length avs) then avs ! nat j else Nil_val))\<rparr>"
    have u: "[nat j..<nat (expArgs (proto f))] = nat j # [nat (j + 1)..<nat (expArgs (proto f))]"
      using True 1(2) by (simp add: upt_conv_Cons nat_add_distrib)
    have c: "(j < int (length avs)) = (nat j < length avs)" using 1(2) by auto
    have v1: "vars ?f1 = bindArg env (proto f) avs (nat j) (vars f)"
      by (simp add: bindArg_def c)
    have "bindArgs env avs j f = bindArgs env avs (j + 1) ?f1"
      using True inr by (subst bindArgs.simps) simp
    also have "\<dots> = (Inr (), ?f1\<lparr>vars := fold (bindArg env (proto ?f1) avs)
                           [nat (j + 1)..<nat (expArgs (proto ?f1))] (vars ?f1)\<rparr>)"
      using True inr 1(2,3) by (intro 1(1)) auto
    also have "\<dots> = (Inr (), f\<lparr>vars := fold (bindArg env (proto f) avs)
                           [nat j..<nat (expArgs (proto f))] (vars f)\<rparr>)"
      unfolding v1 u by simp
    finally show ?thesis .
  qed
qed

lemma setArgs_ok:
  "ob < length (objs f) \<Longrightarrow>
   \<exists>M. setArgs ob i vs f = (Inr (), f\<lparr>objs := (objs f)[ob := M]\<rparr>)
      \<and> (\<forall>n < length vs. M (Number (real (i + n))) = Some (vs ! n))
      \<and> (\<forall>k. k \<notin> (\<lambda>n. Number (real (i + n))) ` {..<length vs} \<longrightarrow> M k = (objs f ! ob) k)"
proof (induction vs arbitrary: i f)
  case Nil
  have "f = f\<lparr>objs := (objs f)[ob := objs f ! ob]\<rparr>" by simp
  then have "setArgs ob i [] f = (Inr (), f\<lparr>objs := (objs f)[ob := objs f ! ob]\<rparr>)" by simp
  then show ?case by (intro exI [of _ "objs f ! ob"]) simp
next
  case (Cons v vs)
  let ?M1 = "(objs f ! ob)(Number (real i) \<mapsto> v)"
  let ?f1 = "f\<lparr>objs := (objs f)[ob := ?M1]\<rparr>"
  have s: "Object_Set ob (Number (real i)) v f = (Inr (), ?f1)"
    using Cons.prems by (simp add: Object_Set_def)
  have "ob < length (objs ?f1)" using Cons.prems by simp
  from Cons.IH [OF this, of "Suc i"] obtain M where
    r: "setArgs ob (Suc i) vs ?f1 = (Inr (), ?f1\<lparr>objs := (objs ?f1)[ob := M]\<rparr>)"
    and a: "\<forall>n < length vs. M (Number (real (Suc i + n))) = Some (vs ! n)"
    and b: "\<forall>k. k \<notin> (\<lambda>n. Number (real (Suc i + n))) ` {..<length vs} \<longrightarrow> M k = (objs ?f1 ! ob) k"
    by blast
  have r': "setArgs ob i (v # vs) f = (Inr (), f\<lparr>objs := (objs f)[ob := M]\<rparr>)"
    using s r by simp
  have o1: "objs ?f1 ! ob = ?M1" using Cons.prems by simp
  have a': "\<forall>n < length (v # vs). M (Number (real (i + n))) = Some ((v # vs) ! n)"
  proof (intro allI impI)
    fix n assume n: "n < length (v # vs)"
    show "M (Number (real (i + n))) = Some ((v # vs) ! n)"
    proof (cases n)
      case 0
      have "Number (real i) \<notin> (\<lambda>n. Number (real (Suc i + n))) ` {..<length vs}" by auto
      with b o1 have "M (Number (real i)) = ?M1 (Number (real i))" by simp
      with 0 show ?thesis by simp
    next
      case (Suc n')
      with n a have "M (Number (real (Suc i + n'))) = Some (vs ! n')" by simp
      with Suc show ?thesis by simp
    qed
  qed
  have b': "\<forall>k. k \<notin> (\<lambda>n. Number (real (i + n))) ` {..<length (v # vs)} \<longrightarrow> M k = (objs f ! ob) k"
  proof (intro allI impI)
    fix k assume k: "k \<notin> (\<lambda>n. Number (real (i + n))) ` {..<length (v # vs)}"
    have k0: "k \<noteq> Number (real i)" using k by (auto simp: image_iff intro: bexI [of _ 0])
    have "k \<notin> (\<lambda>n. Number (real (Suc i + n))) ` {..<length vs}"
    proof
      assume "k \<in> (\<lambda>n. Number (real (Suc i + n))) ` {..<length vs}"
      then obtain n where "n < length vs" "k = Number (real (Suc i + n))" by auto
      then have "k = Number (real (i + Suc n))" "Suc n < length (v # vs)" by simp_all
      with k show False by blast
    qed
    with b o1 k0 show "M k = (objs f ! ob) k" by simp
  qed
  from r' a' b' show ?case by blast
qed

lemma createArgsVal_nonempty:
  assumes "avs \<noteq> []"
  shows "\<exists>M. createArgsVal avs f = (Inr (Object (length (objs f))), f\<lparr>objs := objs f @ [M]\<rparr>)
      \<and> (\<forall>i < length avs. M (Number (real i)) = Some (avs ! i))
      \<and> dom M = (\<lambda>i. Number (real i)) ` {..<length avs}"
proof -
  let ?ob = "length (objs f)"
  let ?f1 = "f\<lparr>objs := objs f @ [Map.empty]\<rparr>"
  have "?ob < length (objs ?f1)" by simp
  from setArgs_ok [OF this, of 0 avs] obtain M where
    r: "setArgs ?ob 0 avs ?f1 = (Inr (), ?f1\<lparr>objs := (objs ?f1)[?ob := M]\<rparr>)"
    and a: "\<forall>n < length avs. M (Number (real (0 + n))) = Some (avs ! n)"
    and b: "\<forall>k. k \<notin> (\<lambda>n. Number (real (0 + n))) ` {..<length avs} \<longrightarrow> M k = (objs ?f1 ! ?ob) k"
    by blast
  have "createArgsVal avs f = (Inr (Object ?ob), f\<lparr>objs := objs f @ [M]\<rparr>)"
    using assms r by (simp add: createArgsVal_def andThen_def NewObject_def ok_def)
  moreover have a': "\<forall>i < length avs. M (Number (real i)) = Some (avs ! i)" using a by simp
  moreover have "dom M = (\<lambda>i. Number (real i)) ` {..<length avs}"
  proof
    show "dom M \<subseteq> (\<lambda>i. Number (real i)) ` {..<length avs}"
    proof
      fix k assume "k \<in> dom M"
      then have "M k \<noteq> None" by auto
      with b show "k \<in> (\<lambda>i. Number (real i)) ` {..<length avs}" by auto
    qed
    show "(\<lambda>i. Number (real i)) ` {..<length avs} \<subseteq> dom M" using a' by auto
  qed
  ultimately show ?thesis by blast
qed

text \<open>
  Claim C7. Let a frame be fresh (program counter 0) for a prototype whose expected
  parameters all have an entry in the constant table. Then the part of \<open>run\<close> before the
  dispatch loop ends normally, and afterwards: every expected parameter is bound to
  the argument at its position, or to Nil when no argument was passed at that position
  (for a parameter whose name is used again by a later parameter, the later binding
  replaces it); the \<open>args\<close> value is Nil when no argument was passed, and otherwise a new
  Object whose keys are exactly the numbers \<open>0 .. N-1\<close>, each holding the argument at
  that position, for all \<open>N\<close> arguments passed.
\<close>

theorem fresh_run_binds_arguments:
  assumes "pc f = 0" and "expArgs (proto f) \<le> int (length (kTable (proto f)))"
  shows "\<exists>f'. enter env avs f = (Inr (), f')
       \<and> (\<forall>j. j < nat (expArgs (proto f))
               \<and> (\<forall>k. j < k \<and> k < nat (expArgs (proto f)) \<longrightarrow>
                      Val_String env (kTable (proto f) ! k) \<noteq> Val_String env (kTable (proto f) ! j))
             \<longrightarrow> vars f' (Val_String env (kTable (proto f) ! j))
                   = Some (if j < length avs then avs ! j else Nil_val))
       \<and> (avs = [] \<longrightarrow> args f' = Nil_val \<and> objs f' = objs f)
       \<and> (avs \<noteq> [] \<longrightarrow>
             args f' = Object (length (objs f))
           \<and> length (objs f') = Suc (length (objs f))
           \<and> (\<forall>i < length avs. (objs f' ! length (objs f)) (Number (real i)) = Some (avs ! i))
           \<and> dom (objs f' ! length (objs f)) = (\<lambda>i. Number (real i)) ` {..<length avs})"
proof -
  let ?p = "proto f"
  let ?f0 = "createLocals f"
  let ?vs = "fold (bindArg env ?p avs) [0..<nat (expArgs ?p)] (vars ?f0)"
  let ?f1 = "?f0\<lparr>vars := ?vs\<rparr>"
  have p0: "proto ?f0 = ?p" "objs ?f0 = objs f" by (simp_all add: createLocals_def)
  have b: "bindArgs env avs 0 ?f0 = (Inr (), ?f1)"
    using bindArgs_fold [of 0 ?f0 env avs] assms(2) by (simp add: p0)
  have look: "vars ?f1 (Val_String env (kTable ?p ! j)) = Some (if j < length avs then avs ! j else Nil_val)"
    if "j < nat (expArgs ?p)"
      and "\<forall>k. j < k \<and> k < nat (expArgs ?p) \<longrightarrow>
             Val_String env (kTable ?p ! k) \<noteq> Val_String env (kTable ?p ! j)" for j
    using fold_bindArg_lookup [OF _ that, of 0 avs "vars ?f0"] by simp
  show ?thesis
  proof (cases "avs = []")
    case True
    have "enter env avs f = (Inr (), ?f1\<lparr>args := Nil_val\<rparr>)"
      using assms(1) b True by (simp add: enter_def andThen_def createArgsVal_def)
    moreover have "objs (?f1\<lparr>args := Nil_val\<rparr>) = objs f" by (simp add: p0)
    ultimately show ?thesis using look True by auto
  next
    case False
    from createArgsVal_nonempty [OF False, of ?f1] obtain M where
      c: "createArgsVal avs ?f1 = (Inr (Object (length (objs ?f1))), ?f1\<lparr>objs := objs ?f1 @ [M]\<rparr>)"
      and a: "\<forall>i < length avs. M (Number (real i)) = Some (avs ! i)"
      and d: "dom M = (\<lambda>i. Number (real i)) ` {..<length avs}"
      by blast
    let ?f' = "?f1\<lparr>objs := objs f @ [M], args := Object (length (objs f))\<rparr>"
    have "enter env avs f = (Inr (), ?f')"
      using assms(1) b c by (simp add: enter_def andThen_def p0)
    moreover have "vars ?f' = vars ?f1" "args ?f' = Object (length (objs f))"
      "length (objs ?f') = Suc (length (objs f))" "objs ?f' ! length (objs f) = M"
      by simp_all
    ultimately show ?thesis using look False a d by auto
  qed
qed

theorem fresh_run_binds_arguments_witness:
  "\<exists>f'. enter example_env [Number 10] two_args_frame = (Inr (), f')
      \<and> vars f' ''a'' = Some (Number 10) \<and> vars f' ''b'' = Some Nil_val
      \<and> args f' = Object 0
      \<and> (objs f' ! 0) (Number 0) = Some (Number 10)
      \<and> dom (objs f' ! 0) = {Number 0}"
proof -
  have h: "pc two_args_frame = 0"
    "expArgs (proto two_args_frame) \<le> int (length (kTable (proto two_args_frame)))"
    by (simp_all add: two_args_frame_def newMachine_def empty_proto_def)
  have v: "expArgs (proto two_args_frame) = 2" "objs two_args_frame = []"
    "kTable (proto two_args_frame) = [String ''a'', String ''b'']"
    by (simp_all add: two_args_frame_def newMachine_def empty_proto_def)
  from fresh_run_binds_arguments [OF h, of example_env "[Number 10]"]
  obtain f' where e: "enter example_env [Number 10] two_args_frame = (Inr (), f')"
    and b: "\<forall>j. j < nat (expArgs (proto two_args_frame))
               \<and> (\<forall>k. j < k \<and> k < nat (expArgs (proto two_args_frame)) \<longrightarrow>
                      Val_String example_env (kTable (proto two_args_frame) ! k)
                        \<noteq> Val_String example_env (kTable (proto two_args_frame) ! j))
             \<longrightarrow> vars f' (Val_String example_env (kTable (proto two_args_frame) ! j))
                   = Some (if j < length [Number 10] then [Number 10] ! j else Nil_val)"
    and a: "args f' = Object (length (objs two_args_frame))"
      "\<forall>i < length [Number 10]. (objs f' ! length (objs two_args_frame)) (Number (real i)) = Some ([Number 10] ! i)"
      "dom (objs f' ! length (objs two_args_frame)) = (\<lambda>i. Number (real i)) ` {..<length [Number 10]}"
    by auto
  have s: "Val_String example_env (String ''a'') = ''a''" "Val_String example_env (String ''b'') = ''b''"
    by (simp_all add: example_env_def)
  have k: "\<And>k. (0::nat) < k \<and> k < 2 \<longleftrightarrow> k = 1" by auto
  have "vars f' ''a'' = Some (Number 10)" using b [rule_format, of 0] by (simp add: v s k)
  moreover have "vars f' ''b'' = Some Nil_val" using b [rule_format, of 1] by (simp add: v s)
  moreover have "args f' = Object 0" using a(1) by (simp add: v)
  moreover have "(objs f' ! 0) (Number 0) = Some (Number 10)" using a(2) by (simp add: v)
  moreover have "dom (objs f' ! 0) = {Number 0}" using a(3) by (simp add: v lessThan_Suc)
  ultimately show ?thesis using e by blast
qed

section \<open>Properties of the assembler\<close>

text \<open>The \<open>[f]\<close> handler assigns through its nil pointer at the first line it reads, and
  reads through it when there is no line: an \<open>[f]\<close> section always panics.\<close>

lemma scan_SecF_panics: "scan env (SecF 0 None) s = Some (Inl NilDereference)"
  by (subst scan.simps) (simp add: deref_def header_line_def assign_def split: list.splits)

lemma TrimSpace_f: "TrimSpace ''[f]'' = ''[f]''"
  by code_simp
lemma TrimSpace_k: "TrimSpace ''[k]'' = ''[k]''"
  by code_simp
lemma TrimSpace_i: "TrimSpace ''[i]'' = ''[i]''"
  by code_simp
lemma TrimSpace_v: "TrimSpace ''[v]'' = ''[v]''"
  by code_simp
lemma TrimSpace_smain: "TrimSpace ''smain'' = ''smain''"
  by code_simp
lemma TrimSpace_RET: "TrimSpace ''RET'' = ''RET''"
  by code_simp
lemma Fields_RET: "Fields ''RET'' = [''RET'']"
  by code_simp
lemma TrimSpace_wide:
  "TrimSpace ([CHR 0xC2, CHR 0xA0, CHR 0x09] @ ''[f]'' @ [CHR 0xE3, CHR 0x80, CHR 0x80, CHR 0x0D]) = ''[f]''"
  by code_simp

lemma Compile_f:
  assumes "TrimSpace l = ''[f]''"
  shows "Compile env ident (l # rest) s = Some (Inl NilDereference)"
proof -
  have "scan env Top (s\<lparr>lines := l # rest\<rparr>) = Some (Inl NilDereference)"
    by (subst scan.simps) (simp add: assms m_def scan_SecF_panics)
  then show ?thesis by (simp add: Compile_def)
qed

lemma Compile_k_s:
  "Compile env ident (''[k]'' # ''smain'' # rest) s = Some (Inl NilDereference)"
proof -
  have "scan env (SecK None) (s\<lparr>lines := ''smain'' # rest\<rparr>) = Some (Inl NilDereference)"
    by (subst scan.simps) (simp add: TrimSpace_smain m_def constant_line_def assign_def)
  then have "scan env Top (s\<lparr>lines := ''[k]'' # ''smain'' # rest\<rparr>) = Some (Inl NilDereference)"
    by (subst scan.simps) (simp add: TrimSpace_k m_def)
  then show ?thesis by (simp add: Compile_def)
qed

lemma Compile_k_v:
  "Compile env ident (''[k]'' # ''[v]'' # rest) s = Some (Inl (Panic ''invalid constant value type''))"
proof -
  have "scan env (SecK None) (s\<lparr>lines := ''[v]'' # rest\<rparr>) = Some (Inl (Panic ''invalid constant value type''))"
    by (subst scan.simps) (simp add: TrimSpace_v m_def constant_line_def assign_def)
  then have "scan env Top (s\<lparr>lines := ''[k]'' # ''[v]'' # rest\<rparr>) = Some (Inl (Panic ''invalid constant value type''))"
    by (subst scan.simps) (simp add: TrimSpace_k m_def)
  then show ?thesis by (simp add: Compile_def)
qed

lemma Compile_i:
  "Compile env ident (''[i]'' # ''RET'' # rest) s =
     Some (Inl (case NewOpcode env ''RET'' of Inl e \<Rightarrow> e | Inr opc \<Rightarrow> NilDereference))"
proof -
  have "scan env (SecI None) (s\<lparr>lines := ''RET'' # rest\<rparr>) =
     Some (Inl (case NewOpcode env ''RET'' of Inl e \<Rightarrow> e | Inr opc \<Rightarrow> NilDereference))"
    by (subst scan.simps)
       (simp add: TrimSpace_RET Fields_RET m_def instruction_line_def assign_def split: sum.splits)
  then have "scan env Top (s\<lparr>lines := ''[i]'' # ''RET'' # rest\<rparr>) =
     Some (Inl (case NewOpcode env ''RET'' of Inl e \<Rightarrow> e | Inr opc \<Rightarrow> NilDereference))"
    by (subst scan.simps) (simp add: TrimSpace_i m_def)
  then show ?thesis by (simp add: Compile_def)
qed

lemma Compile_v:
  "Compile env ident (''[v]'' # rest) s = Compile env ident rest s"
proof -
  have "scan env Top (s\<lparr>lines := ''[v]'' # rest\<rparr>) = scan env Top (s\<lparr>lines := rest\<rparr>)"
    by (subst scan.simps) (simp add: TrimSpace_v m_def)
  then show ?thesis by (simp add: Compile_def)
qed

text \<open>
  A handler that is called with a nil pointer cannot store what it reads, and the
  top-level loop calls every handler with \<open>nil\<close>: whatever the text, \<open>Compile\<close> returns,
  and when it returns without a panic, \<open>ctx\<close> and the function records are what they
  were before the call.
\<close>

lemma m_cases: "m t = Some h \<Longrightarrow> h None = SecF 0 None \<or> h None = SecK None \<or> h None = SecI None"
  by (auto simp: m_def split: if_splits)

lemma header_line_nil: "\<exists>e. header_line env i None l s = Inl e"
  by (simp add: header_line_def assign_def)

lemma constant_line_nil: "\<exists>e. constant_line env None l s = Inl e"
  by (simp add: constant_line_def assign_def deref_def split: list.splits sum.splits)

lemma instruction_line_nil: "\<exists>e. instruction_line env None l s = Inl e"
  by (simp add: instruction_line_def assign_def split: list.splits sum.splits)

lemma scan_untouched:
  assumes "scan env md s = Some y"
  shows "untouched md s y"
proof (rule scan.raw_induct [where P = "\<lambda>env md s y. untouched md s y", OF _ assms])
  fix scan' :: "asm_env \<Rightarrow> mode \<Rightarrow> asm_state \<Rightarrow> (error + asm_state) option"
  fix env md s y
  assume IH: "\<And>env md s y. scan' env md s = Some y \<Longrightarrow> untouched md s y"
  assume b: "(case lines s of
        [] \<Rightarrow>
          (case md of
             Top \<Rightarrow> Some (Inr s)
           | SecF i p \<Rightarrow>
               (case deref p s of
                  Inl e \<Rightarrow> Some (Inl e)
                | Inr g \<Rightarrow> Some (Inr (if IsNative g then add_proto p s else s)))
           | SecK p \<Rightarrow> Some (Inl (Panic ''missing instructions section [i]''))
           | SecI p \<Rightarrow> Some (Inr s))
      | l # ls \<Rightarrow>
          (case md of
             Top \<Rightarrow>
               (case m (TrimSpace l) of
                  Some h \<Rightarrow>
                    Option.bind (scan' env (h None) (s\<lparr>lines := ls\<rparr>)) (\<lambda>r.
                      case r of Inl e \<Rightarrow> Some (Inl e) | Inr s' \<Rightarrow> scan' env Top s')
                | None \<Rightarrow> scan' env Top (s\<lparr>lines := ls\<rparr>))
           | SecF i p \<Rightarrow>
               (if 0 \<le> i \<and> i \<le> 6
                then (case header_line env i p l (s\<lparr>lines := ls\<rparr>) of
                        Inl e \<Rightarrow> Some (Inl e)
                      | Inr (i', s') \<Rightarrow> scan' env (SecF (i' + 1) p) s')
                else (case m l of
                        None \<Rightarrow> Some (Inl NilDereference)
                      | Some h \<Rightarrow>
                          Option.bind (scan' env (h p) (add_proto p (s\<lparr>lines := ls\<rparr>))) (\<lambda>r.
                            case r of Inl e \<Rightarrow> Some (Inl e) | Inr s' \<Rightarrow> scan' env (SecF (i + 1) p) s')))
           | SecK p \<Rightarrow>
               (case m (TrimSpace l) of
                  Some h \<Rightarrow> scan' env (h p) (s\<lparr>lines := ls\<rparr>)
                | None \<Rightarrow>
                    (case constant_line env p l (s\<lparr>lines := ls\<rparr>) of
                       Inl e \<Rightarrow> Some (Inl e)
                     | Inr s' \<Rightarrow> scan' env (SecK p) s'))
           | SecI p \<Rightarrow>
               (case m (TrimSpace l) of
                  Some h \<Rightarrow> scan' env (h p) (s\<lparr>lines := ls\<rparr>)
                | None \<Rightarrow>
                    (case instruction_line env p (TrimSpace l) (s\<lparr>lines := ls\<rparr>) of
                       Inl e \<Rightarrow> Some (Inl e)
                     | Inr s' \<Rightarrow> scan' env (SecI p) s')))) = Some y"
  show "untouched md s y"
  proof (cases "lines s")
    case Nil
    with b show ?thesis
      by (cases md) (auto simp: untouched_def deref_def split: option.splits sum.splits)
  next
    case (Cons l ls)
    show ?thesis
    proof (cases md)
      case Top
      show ?thesis
      proof (cases "m (TrimSpace l)")
        case None
        with b Cons Top have "scan' env Top (s\<lparr>lines := ls\<rparr>) = Some y" by simp
        from IH [OF this] Top show ?thesis by (simp add: untouched_def)
      next
        case (Some h)
        with b Cons Top obtain r where r: "scan' env (h None) (s\<lparr>lines := ls\<rparr>) = Some r"
          and k: "(case r of Inl e \<Rightarrow> Some (Inl e) | Inr s' \<Rightarrow> scan' env Top s') = Some y"
          by (auto simp: bind_eq_Some_conv)
        show ?thesis
        proof (cases r)
          case (Inl e)
          with k Top show ?thesis by (auto simp: untouched_def)
        next
          case (Inr s1)
          with k have t: "scan' env Top s1 = Some y" by simp
          from m_cases [OF Some] IH [OF r] Inr have "ctx s1 = ctx s \<and> heap s1 = heap s"
            by (auto simp: untouched_def)
          with IH [OF t] Top show ?thesis by (simp add: untouched_def)
        qed
      qed
    next
      case (SecF i p)
      show ?thesis
      proof (cases p)
        case (Some a)
        with SecF show ?thesis by (simp add: untouched_def)
      next
        case None
        show ?thesis
        proof (cases "0 \<le> i \<and> i \<le> 6")
          case True
          from header_line_nil [of env i l "s\<lparr>lines := ls\<rparr>"] b Cons SecF None True
          show ?thesis by (auto simp: untouched_def)
        next
          case False
          show ?thesis
          proof (cases "m l")
            case n: None
            with b Cons SecF None False show ?thesis by (auto simp: untouched_def)
          next
            case (Some h)
            with b Cons SecF None False obtain r
              where r: "scan' env (h None) (add_proto None (s\<lparr>lines := ls\<rparr>)) = Some r"
              and k: "(case r of Inl e \<Rightarrow> Some (Inl e) | Inr s' \<Rightarrow> scan' env (SecF (i + 1) None) s') = Some y"
              by (auto simp: bind_eq_Some_conv)
            show ?thesis
            proof (cases r)
              case (Inl e)
              with k SecF show ?thesis by (auto simp: untouched_def)
            next
              case (Inr s1)
              with k have "scan' env (SecF (i + 1) None) s1 = Some y" by simp
              from IH [OF this] SecF show ?thesis by (simp add: untouched_def)
            qed
          qed
        qed
      qed
    next
      case (SecK p)
      show ?thesis
      proof (cases p)
        case (Some a)
        with SecK show ?thesis by (simp add: untouched_def)
      next
        case None
        show ?thesis
        proof (cases "m (TrimSpace l)")
          case n: None
          from constant_line_nil [of env l "s\<lparr>lines := ls\<rparr>"] b Cons SecK None n
          show ?thesis by (auto simp: untouched_def)
        next
          case (Some h)
          with b Cons SecK None have t: "scan' env (h None) (s\<lparr>lines := ls\<rparr>) = Some y" by simp
          from m_cases [OF Some] IH [OF t] SecK None show ?thesis by (auto simp: untouched_def)
        qed
      qed
    next
      case (SecI p)
      show ?thesis
      proof (cases p)
        case (Some a)
        with SecI show ?thesis by (simp add: untouched_def)
      next
        case None
        show ?thesis
        proof (cases "m (TrimSpace l)")
          case n: None
          from instruction_line_nil [of env "TrimSpace l" "s\<lparr>lines := ls\<rparr>"] b Cons SecI None n
          show ?thesis by (auto simp: untouched_def)
        next
          case (Some h)
          with b Cons SecI None have t: "scan' env (h None) (s\<lparr>lines := ls\<rparr>) = Some y" by simp
          from m_cases [OF Some] IH [OF t] SecI None show ?thesis by (auto simp: untouched_def)
        qed
      qed
    qed
  qed
qed

lemma Compile_adds_no_prototype:
  assumes "Compile env ident r s = Some (Inr (c, s'))"
  shows "c = ctx s \<and> ctx s' = ctx s \<and> heap s' = heap s"
proof -
  from assms obtain y where y: "scan env Top (s\<lparr>lines := r\<rparr>) = Some y"
    and c: "map_sum (\<lambda>e. e) (\<lambda>s'. (ctx s', s')) y = Inr (c, s')"
    by (auto simp: Compile_def)
  from c have "y = Inr s'" and "c = ctx s'" by (cases y; simp)+
  with scan_untouched [OF y] show ?thesis by (simp add: untouched_def)
qed

lemma assign_lines: "assign p g s = Inr s' \<Longrightarrow> lines s' = lines s"
  by (auto simp: assign_def split: option.splits if_splits)

lemma header_line_lines: "header_line env i p l s = Inr (i', s') \<Longrightarrow> lines s' = lines s"
  by (auto simp: header_line_def map_sum_def dest: assign_lines split: if_splits sum.splits)

lemma constant_line_lines: "constant_line env p l s = Inr s' \<Longrightarrow> lines s' = lines s"
  by (auto simp: constant_line_def dest: assign_lines split: list.splits if_splits sum.splits)

lemma instruction_line_lines: "instruction_line env p l s = Inr s' \<Longrightarrow> lines s' = lines s"
  by (auto simp: instruction_line_def dest: assign_lines split: list.splits sum.splits)

lemma returns_bind:
  assumes "returns env md1 s1" and "length (lines s1) \<le> k"
    and "\<And>s2. length (lines s2) \<le> k \<Longrightarrow> returns env md2 s2"
  shows "\<exists>y. Option.bind (scan env md1 s1)
             (\<lambda>r. case r of Inl e \<Rightarrow> Some (Inl e) | Inr s' \<Rightarrow> scan env md2 s') = Some y
           \<and> (\<forall>s'. y = Inr s' \<longrightarrow> length (lines s') \<le> k)"
proof -
  from assms(1) obtain y1 where y1: "scan env md1 s1 = Some y1"
    and l1: "\<forall>s'. y1 = Inr s' \<longrightarrow> length (lines s') \<le> length (lines s1)"
    by (auto simp: returns_def)
  show ?thesis
  proof (cases y1)
    case (Inl e)
    with y1 show ?thesis by simp
  next
    case (Inr s2)
    with l1 assms(2) have k: "length (lines s2) \<le> k" by simp
    from assms(3) [OF k] obtain y2 where y2: "scan env md2 s2 = Some y2"
      and l2: "\<forall>s'. y2 = Inr s' \<longrightarrow> length (lines s') \<le> length (lines s2)"
      by (auto simp: returns_def)
    from l2 k have "\<forall>s'. y2 = Inr s' \<longrightarrow> length (lines s') \<le> k" by auto
    with y1 y2 Inr show ?thesis by simp
  qed
qed

lemma returns_weaken:
  "returns env md s1 \<Longrightarrow> length (lines s1) \<le> k \<Longrightarrow>
     \<exists>y. scan env md s1 = Some y \<and> (\<forall>s'. y = Inr s' \<longrightarrow> length (lines s') \<le> k)"
  by (auto simp: returns_def)

lemma scan_returns_aux: "length (lines s) \<le> n \<Longrightarrow> returns env md s"
proof (induction n arbitrary: md s)
  case 0
  then have "lines s = []" by simp
  then show ?case
    unfolding returns_def
    by (subst scan.simps) (auto simp: add_proto_def split: mode.splits sum.splits)
next
  case (Suc n)
  show ?case
  proof (cases "lines s")
    case Nil
    then show ?thesis
      unfolding returns_def
      by (subst scan.simps) (auto simp: add_proto_def split: mode.splits sum.splits)
  next
    case (Cons l ls)
    with Suc.prems have n: "length ls \<le> n" by simp
    have IH: "\<And>md s2. length (lines s2) \<le> length ls \<Longrightarrow> returns env md s2"
      using Suc.IH n by (meson le_trans)
    have r0: "\<And>md. returns env md (s\<lparr>lines := ls\<rparr>)" by (rule IH) simp
    have goal: "\<exists>y. scan env md s = Some y \<and> (\<forall>s'. y = Inr s' \<longrightarrow> length (lines s') \<le> length ls)"
    proof (cases md)
      case Top
      show ?thesis
      proof (cases "m (TrimSpace l)")
        case None
        from returns_weaken [OF r0 [of Top]] Cons Top None show ?thesis
          by (subst scan.simps) simp
      next
        case (Some h)
        from returns_bind [OF r0 [of "h None"] _ IH, of "length ls" Top] Cons Top Some show ?thesis
          by (subst scan.simps) simp
      qed
    next
      case (SecF i p)
      show ?thesis
      proof (cases "0 \<le> i \<and> i \<le> 6")
        case True
        show ?thesis
        proof (cases "header_line env i p l (s\<lparr>lines := ls\<rparr>)")
          case (Inl e)
          with Cons SecF True show ?thesis by (subst scan.simps) simp
        next
          case (Inr b)
          obtain i' s1 where b: "b = (i', s1)" by (cases b)
          with Inr have "lines s1 = ls" using header_line_lines by fastforce
          then have "returns env (SecF (i' + 1) p) s1" by (intro IH) simp
          from returns_weaken [OF this, of "length ls"] \<open>lines s1 = ls\<close> Cons SecF True Inr b
          show ?thesis by (subst scan.simps) simp
        qed
      next
        case False
        show ?thesis
        proof (cases "m l")
          case None
          with Cons SecF False show ?thesis by (subst scan.simps) auto
        next
          case (Some h)
          have "returns env (h p) (add_proto p (s\<lparr>lines := ls\<rparr>))"
            by (rule IH) (simp add: add_proto_def)
          from returns_bind [OF this _ IH, of "length ls" "SecF (i + 1) p"] Cons SecF False Some
          show ?thesis by (subst scan.simps) (auto simp: add_proto_def)
        qed
      qed
    next
      case (SecK p)
      show ?thesis
      proof (cases "m (TrimSpace l)")
        case (Some h)
        from returns_weaken [OF r0 [of "h p"]] Cons SecK Some show ?thesis
          by (subst scan.simps) simp
      next
        case None
        show ?thesis
        proof (cases "constant_line env p l (s\<lparr>lines := ls\<rparr>)")
          case (Inl e)
          with Cons SecK None show ?thesis by (subst scan.simps) simp
        next
          case (Inr s1)
          then have l1: "lines s1 = ls" using constant_line_lines by fastforce
          then have "returns env (SecK p) s1" by (intro IH) simp
          from returns_weaken [OF this, of "length ls"] l1 Cons SecK None Inr
          show ?thesis by (subst scan.simps) simp
        qed
      qed
    next
      case (SecI p)
      show ?thesis
      proof (cases "m (TrimSpace l)")
        case (Some h)
        from returns_weaken [OF r0 [of "h p"]] Cons SecI Some show ?thesis
          by (subst scan.simps) simp
      next
        case None
        show ?thesis
        proof (cases "instruction_line env p (TrimSpace l) (s\<lparr>lines := ls\<rparr>)")
          case (Inl e)
          with Cons SecI None show ?thesis by (subst scan.simps) simp
        next
          case (Inr s1)
          then have l1: "lines s1 = ls" using instruction_line_lines by fastforce
          then have "returns env (SecI p) s1" by (intro IH) simp
          from returns_weaken [OF this, of "length ls"] l1 Cons SecI None Inr
          show ?thesis by (subst scan.simps) simp
        qed
      qed
    qed
    with Cons show ?thesis by (auto simp: returns_def)
  qed
qed

lemma Compile_returns: "\<exists>y. Compile env ident r s = Some y"
  using scan_returns_aux [of "s\<lparr>lines := r\<rparr>" "length r" env Top]
  by (auto simp: returns_def Compile_def)

text \<open>
  Claim C9. \<open>Compile\<close> is to recognise the sections \<open>[f]\<close>, \<open>[k]\<close>, \<open>[i]\<close> and \<open>[v]\<close> of a
  listing and to reconstruct the function prototypes listed, with their fields. It
  does not: on \<open>listing\<close>, and on every text whose first line is or trims to \<open>[f]\<close>,
  the \<open>[f]\<close> handler panics on its nil pointer; the handlers of \<open>[k]\<close> and \<open>[i]\<close>, which
  the top-level loop calls with \<open>nil\<close>, panic at the first constant or instruction
  they are to store (or in the conversion of the opcode); and \<open>[v]\<close> is no key of the
  handler map, so that a \<open>[v]\<close> line is skipped at the top level and read as a constant
  of an invalid type inside a \<open>[k]\<close> section. Whatever the text \<open>r\<close>, \<open>Compile\<close> returns,
  and it either panics or returns \<open>ctx\<close> as it was before the call, the function records
  being those of before the call: no text makes it add a prototype.
\<close>

theorem compile_panics_in_every_section:
  "Compile env ''main'' listing s = Some (Inl NilDereference)
   \<and> Compile env ident (''[f]'' # rest) s = Some (Inl NilDereference)
   \<and> Compile env ident (([CHR 0xC2, CHR 0xA0, CHR 0x09] @ ''[f]'' @ [CHR 0xE3, CHR 0x80, CHR 0x80, CHR 0x0D]) # rest) s
        = Some (Inl NilDereference)
   \<and> Compile env ident (''[k]'' # ''smain'' # rest) s = Some (Inl NilDereference)
   \<and> Compile env ident (''[i]'' # ''RET'' # rest) s =
        Some (Inl (case NewOpcode env ''RET'' of Inl e \<Rightarrow> e | Inr opc \<Rightarrow> NilDereference))
   \<and> m ''[v]'' = None
   \<and> Compile env ident (''[v]'' # rest) s = Compile env ident rest s
   \<and> Compile env ident (''[k]'' # ''[v]'' # rest) s = Some (Inl (Panic ''invalid constant value type''))
   \<and> ((\<exists>e. Compile env ident r s = Some (Inl e))
        \<or> (\<exists>s'. Compile env ident r s = Some (Inr (ctx s, s')) \<and> ctx s' = ctx s \<and> heap s' = heap s))"
proof -
  from Compile_returns [of env ident r s] obtain y where y: "Compile env ident r s = Some y"
    by blast
  have g: "(\<exists>e. Compile env ident r s = Some (Inl e))
        \<or> (\<exists>s'. Compile env ident r s = Some (Inr (ctx s, s')) \<and> ctx s' = ctx s \<and> heap s' = heap s)"
  proof (cases y)
    case (Inl e)
    with y show ?thesis by simp
  next
    case (Inr b)
    obtain c s' where b: "b = (c, s')" by (cases b)
    with y Inr have k: "Compile env ident r s = Some (Inr (c, s'))" by simp
    from Compile_adds_no_prototype [OF k] k show ?thesis by simp
  qed
  have "Compile env ''main'' listing s = Some (Inl NilDereference)"
    using Compile_f [OF TrimSpace_f] by (simp add: listing_def)
  moreover have "m ''[v]'' = None" by (simp add: m_def)
  ultimately show ?thesis
    using Compile_f [OF TrimSpace_f, of env ident rest s] Compile_f [OF TrimSpace_wide, of env ident rest s]
      Compile_k_s [of env ident rest s] Compile_k_v [of env ident rest s] Compile_i [of env ident rest s]
      Compile_v [of env ident rest s] g
    by (intro conjI) assumption+
qed

end
